theory Spec2Isabelle
  imports Complex_Main "HOL-Library.AList"
begin

section \<open>Python values, dictionaries and the object store\<close>

text \<open>
  Option values are strings or nested mappings. A mapping is a mutable object, so a value
  holds a reference to it; the store is the list of all mapping objects, an address being an
  index into it. A dictionary keeps its entries in insertion order with unique keys, which
  is an association list maintained by \<open>AList.update\<close>: an existing key keeps its place and
  takes the new value, a new key goes to the end.
\<close>

datatype pyval = PStr string | PRef nat

type_synonym pydict = "(string \<times> pyval) list"

type_synonym heap = "pydict list"

text \<open>Reading the object at an address. Python has no dangling references; an address
  beyond the store reads as the empty mapping.\<close>

definition deref :: "heap \<Rightarrow> nat \<Rightarrow> pydict" where
  "deref h a = (if a < length h then h ! a else [])"

text \<open>A new object takes the next free address.\<close>

definition alloc :: "heap \<Rightarrow> pydict \<Rightarrow> heap \<times> nat" where
  "alloc h items = (h @ [items], length h)"

text \<open>\<open>{**acc, **other}\<close> and \<open>acc.update(other)\<close>: the entries of \<open>other\<close> are written
  into \<open>acc\<close> one after the other.\<close>

definition dict_update :: "pydict \<Rightarrow> pydict \<Rightarrow> pydict" where
  "dict_update acc other = fold (\<lambda>(k, v). AList.update k v) other acc"

section \<open>Classes and the option template resolver\<close>

text \<open>
  A class carries its module and name, the \<open>default_options\<close> mapping written in its own
  body (if any), and the rest of its method resolution order; \<open>inspect.getmro\<close> returns the
  class followed by that rest, which ends in \<open>object\<close>.
\<close>

datatype pyclass =
  PyClass (cmodule: string) (cname: string) (own_default_options: "nat option")
    (mro_tail: "pyclass list")

definition getmro :: "pyclass \<Rightarrow> pyclass list" where
  "getmro cls = cls # mro_tail cls"

text \<open>Attribute lookup on a class walks its method resolution order and takes the first
  class whose own body defines the attribute: \<open>hasattr(child, 'default_options')\<close> holds
  when the lookup finds one, and \<open>child.default_options\<close> is what it finds.\<close>

fun first_default_options :: "pyclass list \<Rightarrow> nat option" where
  "first_default_options [] = None"
| "first_default_options (c # cs) =
     (case own_default_options c of
        Some a \<Rightarrow> Some a
      | None \<Rightarrow> first_default_options cs)"

definition getattr_default_options :: "pyclass \<Rightarrow> nat option" where
  "getattr_default_options child = first_default_options (getmro child)"

text \<open>The slice \<open>parents[len(parents)-2::-1]\<close>: from the last but one entry down to the
  first. With a single entry the start index \<open>-1\<close> denotes the last entry.\<close>

definition mro_slice :: "'a list \<Rightarrow> 'a list" where
  "mro_slice parents = (if 2 \<le> length parents then rev (butlast parents) else rev parents)"

definition gather_step :: "heap \<Rightarrow> pyclass \<Rightarrow> pydict \<Rightarrow> pydict" where
  "gather_step h child options_from_children =
     (case getattr_default_options child of
        Some a \<Rightarrow> dict_update options_from_children (deref h a)
      | None \<Rightarrow> options_from_children)"

definition gather_all_children_options :: "heap \<Rightarrow> pyclass \<Rightarrow> pydict" where
  "gather_all_children_options h cls = fold (gather_step h) (mro_slice (getmro cls)) []"

definition get_unique_class_name :: "pyclass \<Rightarrow> string" where
  "get_unique_class_name cls = cmodule cls @ ''.'' @ cname cls"

subsection \<open>The resolved template as the specification words it\<close>

text \<open>The successive merge of each ancestor's own mapping, most base class first; a class
  with no mapping of its own contributes nothing, and neither does the root \<open>object\<close>.\<close>

definition own_step :: "heap \<Rightarrow> pyclass \<Rightarrow> pydict \<Rightarrow> pydict" where
  "own_step h child acc =
     (case own_default_options child of
        Some a \<Rightarrow> dict_update acc (deref h a)
      | None \<Rightarrow> acc)"

definition spec_resolved_template :: "heap \<Rightarrow> pyclass \<Rightarrow> pydict" where
  "spec_resolved_template h cls = fold (own_step h) (rev (butlast (getmro cls))) []"

text \<open>Single inheritance: the resolution order of every class in the chain is the rest of
  the chain from that class on.\<close>

fun linear_mro :: "pyclass list \<Rightarrow> bool" where
  "linear_mro [] = True"
| "linear_mro (c # cs) = (mro_tail c = cs \<and> linear_mro cs)"

definition wf_dict :: "pydict \<Rightarrow> bool" where
  "wf_dict items = distinct (map fst items)"

section \<open>Deep copies and what a mapping denotes\<close>

text \<open>
  \<open>copy.deepcopy\<close> of a mapping builds a new mapping object whose values are deep copies of
  the original's values; a string is immutable and is its own copy. The first argument
  bounds how deeply mappings may be nested (the interpreter's recursion limit); \<open>None\<close>
  is Python's \<open>RecursionError\<close>. The copy of a nested mapping is allocated before the
  mapping that holds it. Sharing inside the copied structure is not tracked.
\<close>

fun copy_items ::
  "(heap \<Rightarrow> nat \<Rightarrow> (heap \<times> nat) option) \<Rightarrow> heap \<Rightarrow> pydict \<Rightarrow> (heap \<times> pydict) option" where
  "copy_items f h [] = Some (h, [])"
| "copy_items f h ((k, PStr s) # kvs) =
     (case copy_items f h kvs of
        None \<Rightarrow> None
      | Some (h2, kvs') \<Rightarrow> Some (h2, (k, PStr s) # kvs'))"
| "copy_items f h ((k, PRef a) # kvs) =
     (case f h a of
        None \<Rightarrow> None
      | Some (h1, a') \<Rightarrow>
          (case copy_items f h1 kvs of
             None \<Rightarrow> None
           | Some (h2, kvs') \<Rightarrow> Some (h2, (k, PRef a') # kvs')))"

primrec deepcopy :: "nat \<Rightarrow> heap \<Rightarrow> nat \<Rightarrow> (heap \<times> nat) option" where
  "deepcopy 0 h a = None"
| "deepcopy (Suc n) h a =
     (case copy_items (deepcopy n) h (deref h a) of
        None \<Rightarrow> None
      | Some (h1, items) \<Rightarrow> Some (alloc h1 items))"

text \<open>The tree a mapping denotes, read through the store: \<open>None\<close> when a reference leads
  outside the store or the nesting exceeds the bound.\<close>

datatype pytree = TStr string | TDict "(string \<times> pytree) list"

fun snap_items :: "(nat \<Rightarrow> pytree option) \<Rightarrow> pydict \<Rightarrow> (string \<times> pytree) list option" where
  "snap_items f [] = Some []"
| "snap_items f ((k, PStr s) # kvs) =
     (case snap_items f kvs of
        None \<Rightarrow> None
      | Some ts \<Rightarrow> Some ((k, TStr s) # ts))"
| "snap_items f ((k, PRef a) # kvs) =
     (case f a of
        None \<Rightarrow> None
      | Some t \<Rightarrow>
          (case snap_items f kvs of
             None \<Rightarrow> None
           | Some ts \<Rightarrow> Some ((k, t) # ts)))"

primrec snapshot :: "nat \<Rightarrow> heap \<Rightarrow> nat \<Rightarrow> pytree option" where
  "snapshot 0 h a = None"
| "snapshot (Suc n) h a =
     (if a < length h then map_option TDict (snap_items (snapshot n h) (h ! a)) else None)"

definition dict_tree :: "nat \<Rightarrow> heap \<Rightarrow> pydict \<Rightarrow> pytree option" where
  "dict_tree n h items = map_option TDict (snap_items (snapshot n h) items)"

text \<open>The objects that can be reached from an object by following references.\<close>

inductive_set reach :: "heap \<Rightarrow> nat \<Rightarrow> nat set" for h :: heap and r :: nat where
  reach_root: "r \<in> reach h r"
| reach_step: "b \<in> reach h r \<Longrightarrow> (k, PRef c) \<in> set (deref h b) \<Longrightarrow> c \<in> reach h r"

text \<open>No reference in the store leads outside it.\<close>

definition heap_closed :: "heap \<Rightarrow> bool" where
  "heap_closed h =
     (\<forall>b < length h. \<forall>kv \<in> set (h ! b). case snd kv of PStr s \<Rightarrow> True | PRef c \<Rightarrow> c < length h)"

section \<open>The design and template registration\<close>

datatype error =
  AssertionError | KeyError | RecursionError | NotImplementedError | UserException string

text \<open>Requests received by the design's geometry table service, and invocations of a
  component's \<open>make()\<close>, in the order they happen.\<close>

datatype call =
  DeleteComponent nat
| MakeInvoked nat
| CheckElementType string
| GetComponentGeometryDict nat string
| GetComponent nat string

text \<open>
  The design as the component code uses it: the template cache \<open>template_options\<close> (type
  key to the stored mapping object), the component registry \<open>components\<close> (the ids under
  which a component object is registered), the counter behind \<open>_get_new_qcomponent_id\<close>,
  the messages sent to \<open>logger.error\<close>, the history of calls, the element kinds the
  geometry table service knows, and the store of mapping objects.
\<close>

record qdesign =
  i_am_design :: bool
  template_options :: "string \<rightharpoonup> nat"
  components :: "nat list"
  latest_assigned_id :: nat
  error_log :: "string list"
  calls :: "call list"
  element_types :: "string list"
  objects :: heap

text \<open>\<open>if not component_template\<close>: \<open>None\<close> and the empty mapping are false.\<close>

definition truthy :: "heap \<Rightarrow> nat option \<Rightarrow> bool" where
  "truthy h x = (case x of None \<Rightarrow> False | Some a \<Rightarrow> deref h a \<noteq> [])"

text \<open>\<open>_register_class_with_design\<close>. The explicit template is a mapping object or \<open>None\<close>.
  The mapping that \<open>_gather_all_children_options\<close> builds is a new object of the store. The
  template stored is the deep copy; a copy deeper than the bound raises.\<close>

definition register_class_with_design ::
  "nat \<Rightarrow> pyclass \<Rightarrow> qdesign \<Rightarrow> string \<Rightarrow> nat option \<Rightarrow> (error + unit) \<times> qdesign" where
  "register_class_with_design depth cls design template_key component_template =
     (if template_key \<notin> dom (template_options design) then
        (let (h1, template) =
               (case component_template of
                  Some a \<Rightarrow>
                    if deref (objects design) a \<noteq> [] then (objects design, a)
                    else alloc (objects design)
                           (gather_all_children_options (objects design) cls)
                | None \<Rightarrow>
                    alloc (objects design)
                      (gather_all_children_options (objects design) cls))
         in case deepcopy depth h1 template of
              None \<Rightarrow> (Inl RecursionError, design)
            | Some (h2, stored) \<Rightarrow>
                (Inr (),
                 design\<lparr>objects := h2,
                   template_options := (template_options design)(template_key \<mapsto> stored)\<rparr>))
      else (Inr (), design))"

definition missing_options_message :: "pyclass \<Rightarrow> string" where
  "missing_options_message cls =
     ''ERROR in the creating component '' @ cname cls @ ''!'' @ [CHR 0x0A] @
     ''The default options for the component class '' @ cname cls @ '' are missing''"

text \<open>\<open>Dict(x)\<close> of \<open>toolbox_python.attr_dict\<close>, which is not among the sources, is taken
  to build a new mapping object with the entries of \<open>x\<close>.\<close>

definition Dict_of :: "heap \<Rightarrow> nat \<Rightarrow> heap \<times> nat" where
  "Dict_of h a = alloc h (deref h a)"

text \<open>\<open>get_template_options\<close>. Whichever logger is chosen, the message goes to the log of the
  design. Reading a key that is still missing raises \<open>KeyError\<close>.\<close>

definition get_template_options ::
  "nat \<Rightarrow> pyclass \<Rightarrow> qdesign \<Rightarrow> nat option \<Rightarrow> string option \<Rightarrow> (error + nat) \<times> qdesign" where
  "get_template_options depth cls design component_template template_key =
     (let key = (case template_key of None \<Rightarrow> get_unique_class_name cls | Some k \<Rightarrow> k);
          (r, d1) =
            (if key \<notin> dom (template_options design)
             then register_class_with_design depth cls design key component_template
             else (Inr (), design))
      in case r of
           Inl e \<Rightarrow> (Inl e, d1)
         | Inr u \<Rightarrow>
             (let d2 =
                    (if key \<notin> dom (template_options d1)
                     then d1\<lparr>error_log := error_log d1 @ [missing_options_message cls]\<rparr>
                     else d1)
              in case template_options d2 key of
                   None \<Rightarrow> (Inl KeyError, d2)
                 | Some t \<Rightarrow>
                     (let (h3, wrapped) = Dict_of (objects d2) t
                      in case deepcopy depth h3 wrapped of
                           None \<Rightarrow> (Inl RecursionError, d2)
                         | Some (h4, copied) \<Rightarrow> (Inr copied, d2\<lparr>objects := h4\<rparr>))))"

text \<open>The design's templates are objects of the store, and the store is closed.\<close>

definition wf_design :: "qdesign \<Rightarrow> bool" where
  "wf_design d =
     (heap_closed (objects d) \<and>
      (\<forall>k t. template_options d k = Some t \<longrightarrow> t < length (objects d)))"

text \<open>Auxiliary notions for reasoning about copies: the references of a mapping lie in a
  range of addresses, and the objects from an address on refer only to objects from that
  address on.\<close>

definition refs_in :: "pydict \<Rightarrow> nat \<Rightarrow> nat \<Rightarrow> bool" where
  "refs_in items lo hi = (\<forall>k c. (k, PRef c) \<in> set items \<longrightarrow> lo \<le> c \<and> c < hi)"

definition fresh_region :: "heap \<Rightarrow> nat \<Rightarrow> bool" where
  "fresh_region h n = (\<forall>b. n \<le> b \<and> b < length h \<longrightarrow> refs_in (h ! b) n (length h))"

definition copy_ok :: "(heap \<Rightarrow> nat \<Rightarrow> (heap \<times> nat) option) \<Rightarrow> bool" where
  "copy_ok f =
     (\<forall>h a h' a'. f h a = Some (h', a') \<longrightarrow>
        (\<exists>ext. h' = h @ ext) \<and> length h \<le> a' \<and> a' < length h' \<and> fresh_region h' (length h))"

section \<open>Components\<close>

datatype status = NotBuilt | Failed | Good

type_synonym vec = "real \<times> real"

record pin =
  points :: "vec list"
  middle :: vec
  normal :: vec
  tangent :: vec
  width :: real
  chip :: string
  parent_name :: string
  net_id :: int

text \<open>The attributes of a component object. \<open>options\<close> and \<open>metadata\<close> are references to
  mapping objects; the parser helper \<open>p\<close> has no state of its own and is left out.\<close>

record qcomponent =
  name :: string
  cid :: nat
  class_name :: string
  options :: nat
  metadata :: nat
  status :: status
  connector_names :: "string list"
  made :: bool
  pins :: "(string \<times> pin) list"

text \<open>Modelled from the spec: \<open>is_design\<close> is imported from the package root, which is not
  among the sources. \<open>isValidDesign(obj) -> bool\<close> is read off a marker of the object.\<close>

definition is_design :: "qdesign \<Rightarrow> bool" where
  "is_design obj = i_am_design obj"

text \<open>Modelled from the spec: \<open>_get_new_qcomponent_id\<close> belongs to the design class, which
  is not among the sources. \<open>allocateComponentId() -> int\<close> is monotonic and unique: the
  counter is advanced and its new value returned.\<close>

definition get_new_qcomponent_id :: "qdesign \<Rightarrow> nat \<times> qdesign" where
  "get_new_qcomponent_id d =
     (latest_assigned_id d + 1, d\<lparr>latest_assigned_id := latest_assigned_id d + 1\<rparr>)"

definition add_to_design :: "qcomponent \<Rightarrow> qdesign \<Rightarrow> qcomponent \<times> qdesign" where
  "add_to_design self d =
     (let (new_id, d1) = get_new_qcomponent_id d;
          self1 = self\<lparr>cid := new_id\<rparr>
      in (self1, d1\<lparr>components := components d1 @ [cid self1]\<rparr>))"

subsection \<open>Building\<close>

text \<open>
  \<open>make()\<close> is supplied by the component class. It runs on the component and the design and
  may change both; it either returns or raises, and what it changed before raising stays
  changed. The base class raises \<open>NotImplementedError\<close>.
\<close>

type_synonym make_fn = "qcomponent \<Rightarrow> qdesign \<Rightarrow> error option \<times> qcomponent \<times> qdesign"

definition QComponent_make :: make_fn where
  "QComponent_make self d = (Some NotImplementedError, self, d)"

text \<open>Modelled from the spec: \<open>design.elements\<close> is the geometry table service, whose code
  is not among the sources. \<open>deleteComponent(ownerId)\<close> is recorded as a request received
  by the service.\<close>

definition delete_component :: "nat \<Rightarrow> qdesign \<Rightarrow> qdesign" where
  "delete_component owner d = d\<lparr>calls := calls d @ [DeleteComponent owner]\<rparr>"

text \<open>The call \<open>self.make()\<close>, entered in the history of calls.\<close>

definition invoke_make :: "make_fn \<Rightarrow> make_fn" where
  "invoke_make mk self d = mk self (d\<lparr>calls := calls d @ [MakeInvoked (cid self)]\<rparr>)"

definition do_make :: "make_fn \<Rightarrow> make_fn" where
  "do_make mk self d =
     (let self1 = self\<lparr>status := Failed\<rparr>
      in if made self1 then
           (let d1 = delete_component (cid self1) d
            in case invoke_make mk self1 d1 of
                 (Some e, self2, d2) \<Rightarrow> (Some e, self2, d2)
               | (None, self2, d2) \<Rightarrow> (None, self2\<lparr>status := Good\<rparr>, d2))
         else
           (case invoke_make mk self1 d of
              (Some e, self2, d2) \<Rightarrow> (Some e, self2, d2)
            | (None, self2, d2) \<Rightarrow> (None, self2\<lparr>made := True, status := Good\<rparr>, d2)))"

definition rebuild :: "make_fn \<Rightarrow> make_fn" where
  "rebuild = do_make"

subsection \<open>Construction\<close>

text \<open>Modelled from the spec: \<open>Dict.update\<close> of \<open>toolbox_python.attr_dict\<close> is not among
  the sources. The spec has the resolved options \<open>merged with caller overrides\<close>, and the
  update merges: for each entry of the other mapping, when the target has the key and
  both the target's value and the new value are mappings, the new value's entries are
  merged into the target's value in the same way; otherwise the new value is stored under the key as it is
  (a mapping is stored by reference). The first argument bounds the nesting of the merge;
  beyond it Python raises \<open>RecursionError\<close>, and what was written before stays written.\<close>

fun update_items ::
  "(heap \<Rightarrow> nat \<Rightarrow> pydict \<Rightarrow> error option \<times> heap) \<Rightarrow> heap \<Rightarrow> nat \<Rightarrow> pydict
     \<Rightarrow> error option \<times> heap" where
  "update_items f h target [] = (None, h)"
| "update_items f h target ((k, v) # kvs) =
     (case (map_of (deref h target) k, v) of
        (Some (PRef b), PRef c) \<Rightarrow>
          (case f h b (deref h c) of
             (Some e, h1) \<Rightarrow> (Some e, h1)
           | (None, h1) \<Rightarrow> update_items f h1 target kvs)
      | _ \<Rightarrow> update_items f (h[target := AList.update k v (deref h target)]) target kvs)"

primrec Dict_update :: "nat \<Rightarrow> heap \<Rightarrow> nat \<Rightarrow> pydict \<Rightarrow> error option \<times> heap" where
  "Dict_update 0 h target other = (Some RecursionError, h)"
| "Dict_update (Suc n) h target other = update_items (Dict_update n) h target other"

text \<open>\<open>if options: self.options.update(options)\<close>: nothing happens for \<open>None\<close> and for an
  empty mapping; otherwise the entries the caller's mapping has at that moment are merged
  into the component's options object.\<close>

definition update_options ::
  "nat \<Rightarrow> nat \<Rightarrow> nat option \<Rightarrow> qdesign \<Rightarrow> error option \<times> qdesign" where
  "update_options depth target user_options d =
     (case user_options of
        None \<Rightarrow> (None, d)
      | Some a \<Rightarrow>
          if deref (objects d) a \<noteq> [] then
            (case Dict_update depth (objects d) target (deref (objects d) a) of
               (r, h') \<Rightarrow> (r, d\<lparr>objects := h'\<rparr>))
          else (None, d))"

definition QComponent_init ::
  "nat \<Rightarrow> pyclass \<Rightarrow> make_fn \<Rightarrow> qdesign \<Rightarrow> string \<Rightarrow> nat option \<Rightarrow> bool \<Rightarrow> nat option
     \<Rightarrow> (error + qcomponent) \<times> qdesign" where
  "QComponent_init depth cls mk design nm user_options make_now component_template =
     (if \<not> is_design design then (Inl AssertionError, design)
      else
        case get_template_options depth cls design component_template None of
          (Inl e, d1) \<Rightarrow> (Inl e, d1)
        | (Inr opts, d1) \<Rightarrow>
            (case update_options depth opts user_options d1 of
               (Some e, d2) \<Rightarrow> (Inl e, d2)
             | (None, d2) \<Rightarrow>
                 (let (h3, meta) = alloc (objects d2) [];
                      d3 = d2\<lparr>objects := h3\<rparr>;
                      self0 = \<lparr>name = nm, cid = 0, class_name = get_unique_class_name cls,
                               options = opts, metadata = meta, status = NotBuilt,
                               connector_names = [], made = False, pins = []\<rparr>;
                      (self1, d4) = add_to_design self0 d3
                  in if make_now then
                       (case do_make mk self1 d4 of
                          (Some e, self2, d5) \<Rightarrow> (Inl e, d5)
                        | (None, self2, d5) \<Rightarrow> (Inr self2, d5))
                     else (Inr self1, d4))))"

subsection \<open>Later writes to option objects\<close>

text \<open>Two objects share nothing when no object can be reached from both. A write
  replaces the entries of one object. A run of writes to a component's options is
  admissible with respect to a template when each write goes to an object then reachable
  from the options and stores no reference to an object that shares something with the
  template.\<close>

definition shares_nothing :: "heap \<Rightarrow> nat \<Rightarrow> nat \<Rightarrow> bool" where
  "shares_nothing h x t = (reach h x \<inter> reach h t = {})"

fun apply_writes :: "heap \<Rightarrow> (nat \<times> pydict) list \<Rightarrow> heap" where
  "apply_writes h [] = h"
| "apply_writes h ((a, items) # ws) = apply_writes (h[a := items]) ws"

fun admissible :: "heap \<Rightarrow> nat \<Rightarrow> nat \<Rightarrow> (nat \<times> pydict) list \<Rightarrow> bool" where
  "admissible h opts t [] = True"
| "admissible h opts t ((a, items) # ws) =
     (a \<in> reach h opts
      \<and> (\<forall>k c. (k, PRef c) \<in> set items \<longrightarrow> shares_nothing h c t)
      \<and> admissible (h[a := items]) opts t ws)"

text \<open>What the proofs ask of an update operation with respect to a set of protected
  objects: it keeps the size of the store, leaves the protected objects as they are, and
  lets nothing that was clear of them reach them.\<close>

definition update_ok :: "nat set \<Rightarrow> (heap \<Rightarrow> nat \<Rightarrow> pydict \<Rightarrow> error option \<times> heap) \<Rightarrow> bool" where
  "update_ok T f =
     (\<forall>h target other r h'.
        reach h target \<inter> T = {} \<longrightarrow>
        (\<forall>k c. (k, PRef c) \<in> set other \<longrightarrow> reach h c \<inter> T = {}) \<longrightarrow>
        f h target other = (r, h') \<longrightarrow>
        length h' = length h \<and> (\<forall>b \<in> T. deref h' b = deref h b)
        \<and> (\<forall>x. reach h x \<inter> T = {} \<longrightarrow> reach h' x \<inter> T = {}))"

subsection \<open>Pins\<close>

text \<open>Modelled from the spec: \<open>draw.Vector.two_points_described\<close> is not among the sources.
  It computes the direction vector from the first point to the second, the unit direction
  (tangent), and a unit vector orthogonal to it (normal). The plane has two such normals;
  \<open>ccw\<close> says which one is meant. Coordinates are real numbers here.\<close>

definition two_points_described :: "bool \<Rightarrow> vec \<Rightarrow> vec \<Rightarrow> vec \<times> vec \<times> vec" where
  "two_points_described ccw p1 p2 =
     (let dx = fst p2 - fst p1;
          dy = snd p2 - snd p1;
          len = sqrt (dx * dx + dy * dy);
          ux = dx / len;
          uy = dy / len
      in ((dx, dy), (ux, uy), if ccw then (- uy, ux) else (uy, - ux)))"

definition vec_norm :: "vec \<Rightarrow> real" where
  "vec_norm v = sqrt (fst v * fst v + snd v * snd v)"

definition vec_neg :: "vec \<Rightarrow> vec" where
  "vec_neg v = (- fst v, - snd v)"

definition vec_dot :: "vec \<Rightarrow> vec \<Rightarrow> real" where
  "vec_dot u v = fst u * fst v + snd u * snd v"

definition make_pin :: "bool \<Rightarrow> vec list \<Rightarrow> string \<Rightarrow> bool \<Rightarrow> string \<Rightarrow> error + pin" where
  "make_pin ccw pts parent flip chp =
     (case pts of
        [p1, p2] \<Rightarrow>
          (let (vec_dist, vec_dist_unit, vec_normal0) = two_points_described ccw p1 p2;
               vec_normal = (if flip then vec_neg vec_normal0 else vec_normal0)
           in Inr \<lparr>points = pts,
                   middle = ((fst p1 + fst p2) / 2, (snd p1 + snd p2) / 2),
                   normal = vec_normal,
                   tangent = vec_dist_unit,
                   width = vec_norm vec_dist,
                   chip = chp,
                   parent_name = parent,
                   net_id = 0\<rparr>)
      | _ \<Rightarrow> Inl AssertionError)"

definition get_pin :: "qcomponent \<Rightarrow> string \<Rightarrow> error + pin" where
  "get_pin self nm = (case map_of (pins self) nm of None \<Rightarrow> Inl KeyError | Some p \<Rightarrow> Inr p)"

definition add_pin ::
  "bool \<Rightarrow> qcomponent \<Rightarrow> string \<Rightarrow> vec list \<Rightarrow> string \<Rightarrow> bool \<Rightarrow> string
     \<Rightarrow> error option \<times> qcomponent" where
  "add_pin ccw self nm pts parent flip chp =
     (case make_pin ccw pts parent flip chp of
        Inl e \<Rightarrow> (Some e, self)
      | Inr p \<Rightarrow> (None, self\<lparr>pins := AList.update nm p (pins self)\<rparr>))"

subsection \<open>Reading geometry\<close>

text \<open>Modelled from the spec: the geometry table service is not among the sources.
  \<open>checkElementType(kind) -> bool\<close> validates the kind against the kinds the service has
  registered. The retrieval operations are parameters of the accessors that use them: they
  answer for a component id and a kind, or raise.\<close>

definition check_element_type :: "string \<Rightarrow> qdesign \<Rightarrow> bool \<times> qdesign" where
  "check_element_type element_type d =
     (element_type \<in> set (element_types d),
      d\<lparr>calls := calls d @ [CheckElementType element_type]\<rparr>)"

definition elements_dict ::
  "(nat \<Rightarrow> string \<Rightarrow> error + 'g) \<Rightarrow> qcomponent \<Rightarrow> qdesign \<Rightarrow> string
     \<Rightarrow> (error + 'g option) \<times> qdesign" where
  "elements_dict get_component_geometry_dict self d element_type =
     (case check_element_type element_type d of
        (True, d1) \<Rightarrow>
          (let d2 = d1\<lparr>calls := calls d1 @ [GetComponentGeometryDict (cid self) element_type]\<rparr>
           in case get_component_geometry_dict (cid self) element_type of
                Inl e \<Rightarrow> (Inl e, d2)
              | Inr g \<Rightarrow> (Inr (Some g), d2))
      | (False, d1) \<Rightarrow> (Inr None, d1))"

definition elements_table ::
  "(nat \<Rightarrow> string \<Rightarrow> error + 't) \<Rightarrow> qcomponent \<Rightarrow> qdesign \<Rightarrow> string
     \<Rightarrow> (error + 't option) \<times> qdesign" where
  "elements_table get_component self d element_type =
     (case check_element_type element_type d of
        (True, d1) \<Rightarrow>
          (let d2 = d1\<lparr>calls := calls d1 @ [GetComponent (cid self) element_type]\<rparr>
           in case get_component (cid self) element_type of
                Inl e \<Rightarrow> (Inl e, d2)
              | Inr g \<Rightarrow> (Inr (Some g), d2))
      | (False, d1) \<Rightarrow> (Inr None, d1))"

subsection \<open>A diamond of component classes\<close>

definition class_object :: pyclass where
  "class_object = PyClass ''builtins'' ''object'' None []"

definition class_QComponent :: pyclass where
  "class_QComponent =
     PyClass ''qiskit_metal.components.base.base'' ''QComponent'' None [class_object]"

definition class_A :: pyclass where
  "class_A = PyClass ''lib'' ''A'' (Some 0) [class_QComponent, class_object]"

definition class_B :: pyclass where
  "class_B = PyClass ''lib'' ''B'' None [class_A, class_QComponent, class_object]"

definition class_C :: pyclass where
  "class_C = PyClass ''lib'' ''C'' (Some 1) [class_A, class_QComponent, class_object]"

definition class_D :: pyclass where
  "class_D =
     PyClass ''lib'' ''D'' (Some 2)
       [class_B, class_C, class_A, class_QComponent, class_object]"

definition diamond_heap :: heap where
  "diamond_heap =
     [[(''k'', PStr ''a'')], [(''k'', PStr ''c'')], [(''x'', PStr ''d'')]]"

section \<open>Concrete designs, components and builders\<close>

definition design0 :: qdesign where
  "design0 =
     \<lparr>i_am_design = True, template_options = Map.empty, components = [],
      latest_assigned_id = 0, error_log = [], calls = [],
      element_types = [''path'', ''poly''], objects = diamond_heap\<rparr>"

definition design1 :: qdesign where
  "design1 = snd (register_class_with_design 3 class_A design0 ''lib.A'' (Some 1))"

definition not_a_design :: qdesign where
  "not_a_design = design0\<lparr>i_am_design := False\<rparr>"

definition built_component :: qcomponent where
  "built_component =
     \<lparr>name = ''q1'', cid = 1, class_name = ''lib.A'', options = 6, metadata = 7,
      status = Good, connector_names = [], made = True, pins = []\<rparr>"

text \<open>A design whose store holds a class's defaults with a nested mapping (objects 0 and
  1), an empty mapping (object 2), and a caller's overrides \<open>{'pad': {'h': '1um'}}\<close>
  (objects 3 and 4).\<close>

definition nested_heap :: heap where
  "nested_heap =
     [[(''w'', PStr ''10um'')], [(''pad'', PRef 0), (''gap'', PStr ''5um'')], [],
      [(''h'', PStr ''1um'')], [(''pad'', PRef 3)]]"

definition class_Qubit :: pyclass where
  "class_Qubit = PyClass ''lib'' ''Qubit'' (Some 1) [class_QComponent, class_object]"

definition design_nested :: qdesign where
  "design_nested =
     \<lparr>i_am_design = True, template_options = Map.empty, components = [],
      latest_assigned_id = 0, error_log = [], calls = [],
      element_types = [''path'', ''poly''], objects = nested_heap\<rparr>"

definition design_after_copy :: qdesign where
  "design_after_copy = snd (get_template_options 3 class_Qubit design_nested None None)"

definition plain_make :: make_fn where
  "plain_make self d = (None, self, d)"

definition failing_make :: make_fn where
  "failing_make self d = (Some (UserException ''bad geometry''), self, d)"

text \<open>A \<open>make()\<close> that assigns the status and then raises; a component not yet built;
  the design after a caller's overrides were merged.\<close>

definition sneaky_make :: make_fn where
  "sneaky_make self d = (Some (UserException ''bad geometry''), self\<lparr>status := Good\<rparr>, d)"

definition fresh_component :: qcomponent where
  "fresh_component =
     \<lparr>name = ''q1'', cid = 1, class_name = ''lib.A'', options = 6, metadata = 7,
      status = NotBuilt, connector_names = [], made = False, pins = []\<rparr>"

definition design_after_update :: qdesign where
  "design_after_update = snd (update_options 3 10 (Some 4) design_after_copy)"

text \<open>Two later writes to the component's options: one into the nested mapping, one
  that replaces the entries of the options by a reference to an object of the caller.\<close>

definition later_writes :: "(nat \<times> pydict) list" where
  "later_writes = [(9, [(''w'', PStr ''99um'')]), (10, [(''pad'', PRef 3), (''gap'', PStr ''5um'')])]"

text \<open>A caller's overrides that refer to an object of the stored template, and the
  component constructed with them.\<close>

definition design_user :: qdesign where
  "design_user =
     design_after_copy\<lparr>objects := objects design_after_copy @ [[(''extra'', PRef 6)]]\<rparr>"

definition design_aliased :: qdesign where
  "design_aliased =
     snd (QComponent_init 3 class_Qubit plain_make design_user ''q2'' (Some 11) False None)"

definition aliased_component :: qcomponent where
  "aliased_component =
     \<lparr>name = ''q2'', cid = 1, class_name = ''lib.Qubit'', options = 14, metadata = 15,
      status = NotBuilt, connector_names = [], made = False, pins = []\<rparr>"

section \<open>Merging mappings\<close>

lemma dict_update_absorb:
  "\<forall>(k, v) \<in> set ys. map_of z k = Some v \<Longrightarrow> dict_update z ys = z"
  unfolding dict_update_def
  by (induction ys) (auto simp: update_triv)

lemma map_of_dict_update_other:
  "k \<notin> fst ` set y \<Longrightarrow> map_of (dict_update x y) k = map_of x k"
  unfolding dict_update_def
  by (induction y arbitrary: x) (auto simp: update_conv')

lemma map_of_dict_update_mem:
  "distinct (map fst y) \<Longrightarrow> (k, v) \<in> set y \<Longrightarrow> map_of (dict_update x y) k = Some v"
proof (induction y arbitrary: x)
  case Nil then show ?case by simp
next
  case (Cons p y)
  obtain k' v' where p: "p = (k', v')" by (cases p)
  have step: "dict_update x (p # y) = dict_update (AList.update k' v' x) y"
    by (simp add: dict_update_def p)
  show ?case
  proof (cases "(k, v) \<in> set y")
    case True
    with Cons show ?thesis by (simp add: step)
  next
    case False
    with Cons.prems p have kv: "k = k'" "v = v'" and "k' \<notin> fst ` set y" by auto
    then show ?thesis by (simp add: step map_of_dict_update_other update_conv')
  qed
qed

lemma dict_update_idem:
  assumes "wf_dict y" shows "dict_update (dict_update x y) y = dict_update x y"
proof (rule dict_update_absorb)
  show "\<forall>(k, v)\<in>set y. map_of (dict_update x y) k = Some v"
    using assms by (auto simp: map_of_dict_update_mem wf_dict_def)
qed

lemma gather_linear:
  assumes "linear_mro (cs @ [base])" and "own_default_options base = None"
    and "\<forall>c \<in> set cs. \<forall>a. own_default_options c = Some a \<longrightarrow> wf_dict (deref h a)"
  shows "foldr (gather_step h) cs [] = foldr (own_step h) cs []
       \<and> (\<forall>a. first_default_options (cs @ [base]) = Some a \<longrightarrow>
             dict_update (foldr (own_step h) cs []) (deref h a) = foldr (own_step h) cs [])"
  using assms
proof (induction cs)
  case Nil then show ?case by simp
next
  case (Cons c cs)
  then have IH1: "foldr (gather_step h) cs [] = foldr (own_step h) cs []"
    and IH2: "\<And>a. first_default_options (cs @ [base]) = Some a \<Longrightarrow>
             dict_update (foldr (own_step h) cs []) (deref h a) = foldr (own_step h) cs []"
    and mro: "getmro c = c # cs @ [base]" by (auto simp: getmro_def)
  define G where "G = foldr (gather_step h) cs []"
  define W where "W = foldr (own_step h) cs []"
  have GW: "G = W" using IH1 by (simp add: G_def W_def)
  have gs: "gather_step h c X =
      (case first_default_options (c # cs @ [base]) of
         Some a \<Rightarrow> dict_update X (deref h a) | None \<Rightarrow> X)" for X
    by (simp only: gather_step_def getattr_default_options_def mro)
  have os: "own_step h c W =
      (case own_default_options c of Some a \<Rightarrow> dict_update W (deref h a) | None \<Rightarrow> W)"
    by (simp only: own_step_def)
  have absorb: "\<And>a. first_default_options (cs @ [base]) = Some a \<Longrightarrow> dict_update W (deref h a) = W"
    using IH2 by (simp add: W_def)
  have "gather_step h c G = own_step h c W
      \<and> (\<forall>a. first_default_options (c # cs @ [base]) = Some a \<longrightarrow>
             dict_update (own_step h c W) (deref h a) = own_step h c W)"
  proof (cases "own_default_options c")
    case None
    then show ?thesis using absorb GW
      by (cases "first_default_options (cs @ [base])") (simp_all add: gs os)
  next
    case (Some a)
    with Cons.prems have "wf_dict (deref h a)" by auto
    then show ?thesis using Some GW
      by (simp add: gs os dict_update_idem)
  qed
  then show ?case unfolding G_def W_def by simp
qed

lemma gather_single_inheritance:
  assumes lin: "linear_mro (getmro cls)"
    and obj: "own_default_options (last (getmro cls)) = None"
    and wf: "\<forall>c \<in> set (getmro cls). \<forall>a. own_default_options c = Some a \<longrightarrow> wf_dict (deref h a)"
  shows "gather_all_children_options h cls = spec_resolved_template h cls"
proof (cases "mro_tail cls = []")
  case True
  then have m: "getmro cls = [cls]" by (simp add: getmro_def)
  with obj have "own_default_options cls = None" by simp
  then show ?thesis
    by (simp add: gather_all_children_options_def spec_resolved_template_def m mro_slice_def
        gather_step_def getattr_default_options_def)
next
  case False
  define cs where "cs = butlast (getmro cls)"
  define base where "base = last (getmro cls)"
  have split: "getmro cls = cs @ [base]"
    by (simp add: cs_def base_def getmro_def)
  have len: "2 \<le> length (getmro cls)"
    using False by (cases "mro_tail cls") (simp_all add: getmro_def)
  have l: "linear_mro (cs @ [base])" using lin by (simp only: split)
  have o: "own_default_options base = None" using obj by (simp only: base_def)
  have w: "\<forall>c \<in> set cs. \<forall>a. own_default_options c = Some a \<longrightarrow> wf_dict (deref h a)"
    using wf unfolding split by simp
  have "foldr (gather_step h) cs [] = foldr (own_step h) cs []"
    using gather_linear [OF l o w] by simp
  then show ?thesis
    using len
    by (simp add: gather_all_children_options_def spec_resolved_template_def mro_slice_def
        foldr_conv_fold cs_def)
qed

section \<open>Properties of deep copies\<close>

lemma refs_in_Nil: "refs_in [] lo hi" by (simp add: refs_in_def)

lemma refs_in_Cons_Str: "refs_in ((k, PStr s) # kvs) lo hi = refs_in kvs lo hi"
  by (auto simp: refs_in_def)

lemma refs_in_Cons_Ref: "refs_in ((k, PRef c) # kvs) lo hi = (lo \<le> c \<and> c < hi \<and> refs_in kvs lo hi)"
  by (auto simp: refs_in_def)

lemma refs_in_mono: "refs_in items lo hi \<Longrightarrow> lo' \<le> lo \<Longrightarrow> hi \<le> hi' \<Longrightarrow> refs_in items lo' hi'"
  by (fastforce simp: refs_in_def)

lemma fresh_region_append:
  assumes "fresh_region h1 n" "fresh_region (h1 @ ext) (length h1)" "n \<le> length h1"
  shows "fresh_region (h1 @ ext) n"
  unfolding fresh_region_def
proof (intro allI impI)
  fix b assume b: "n \<le> b \<and> b < length (h1 @ ext)"
  show "refs_in ((h1 @ ext) ! b) n (length (h1 @ ext))"
  proof (cases "b < length h1")
    case True
    with assms(1) b have "refs_in (h1 ! b) n (length h1)" by (simp add: fresh_region_def)
    then show ?thesis using True by (auto simp: nth_append intro: refs_in_mono)
  next
    case False
    with assms(2) b have "refs_in ((h1 @ ext) ! b) (length h1) (length (h1 @ ext))"
      by (simp add: fresh_region_def)
    then show ?thesis using assms(3) by (auto intro: refs_in_mono)
  qed
qed

lemma fresh_region_same: "fresh_region h (length h)"
  by (auto simp: fresh_region_def)

subsection \<open>What a deep copy allocates\<close>

lemma copy_okD:
  assumes "copy_ok f" "f h a = Some (h', a')"
  obtains ext where "h' = h @ ext" "length h \<le> a'" "a' < length h'" "fresh_region h' (length h)"
  using assms unfolding copy_ok_def by meson

lemma copy_items_struct:
  shows "copy_ok f \<Longrightarrow> copy_items f h items = Some (h', items') \<Longrightarrow>
      (\<exists>ext. h' = h @ ext) \<and> refs_in items' (length h) (length h') \<and> fresh_region h' (length h)"
proof (induction f h items arbitrary: h' items' rule: copy_items.induct)
  case (1 f h)
  then show ?case by (simp add: refs_in_Nil fresh_region_same)
next
  case (2 f h k s kvs)
  then show ?case by (auto split: option.splits simp: refs_in_Cons_Str)
next
  case (3 f h k a kvs)
  from "3.prems"(2) obtain h1 a' h2 kvs' where
    fa: "f h a = Some (h1, a')" and rest: "copy_items f h1 kvs = Some (h2, kvs')"
    and res: "h' = h2" "items' = (k, PRef a') # kvs'"
    by (auto split: option.splits)
  from copy_okD[OF "3.prems"(1) fa] obtain e1 where e1: "h1 = h @ e1" and a': "length h \<le> a'" "a' < length h1"
    and fr1: "fresh_region h1 (length h)" by blast
  from "3.IH"[OF fa refl "3.prems"(1) rest] obtain e2 where e2: "h2 = h1 @ e2"
    and r2: "refs_in kvs' (length h1) (length h2)" and fr2: "fresh_region h2 (length h1)"
    by blast
  have "fresh_region h2 (length h)"
    using fresh_region_append[OF fr1] fr2 e1 e2 by simp
  moreover have "refs_in items' (length h) (length h2)"
    using r2 a' e1 e2 by (auto simp: res refs_in_Cons_Ref intro: refs_in_mono)
  ultimately show ?case using e1 e2 res by simp
qed

lemma fresh_region_snoc:
  assumes "fresh_region h1 n" "refs_in items n (length h1)" "n \<le> length h1"
  shows "fresh_region (h1 @ [items]) n"
  unfolding fresh_region_def
proof (intro allI impI)
  fix b assume b: "n \<le> b \<and> b < length (h1 @ [items])"
  show "refs_in ((h1 @ [items]) ! b) n (length (h1 @ [items]))"
  proof (cases "b < length h1")
    case True
    with assms(1) b have "refs_in (h1 ! b) n (length h1)" by (simp add: fresh_region_def)
    then show ?thesis using True by (auto simp: nth_append intro: refs_in_mono)
  next
    case False
    with b have "b = length h1" by simp
    then show ?thesis using assms(2) by (auto intro: refs_in_mono)
  qed
qed

lemma deepcopy_ok: "copy_ok (deepcopy n)"
proof (induction n)
  case 0
  then show ?case by (simp add: copy_ok_def)
next
  case (Suc n)
  show ?case unfolding copy_ok_def
  proof (intro allI impI)
    fix h a h' a'
    assume "deepcopy (Suc n) h a = Some (h', a')"
    then obtain h1 items where ci: "copy_items (deepcopy n) h (deref h a) = Some (h1, items)"
      and res: "h' = h1 @ [items]" "a' = length h1"
      by (auto split: option.splits simp: alloc_def)
    from copy_items_struct[OF Suc ci] obtain ext where e: "h1 = h @ ext"
      and r: "refs_in items (length h) (length h1)" and fr: "fresh_region h1 (length h)" by blast
    have "fresh_region (h1 @ [items]) (length h)"
      using fresh_region_snoc[OF fr r] e by simp
    then show "(\<exists>ext. h' = h @ ext) \<and> length h \<le> a' \<and> a' < length h' \<and> fresh_region h' (length h)"
      using e res by simp
  qed
qed


subsection \<open>Deep copies denote the same tree\<close>

lemma snap_items_cong:
  "(\<And>k c. (k, PRef c) \<in> set items \<Longrightarrow> f c = g c) \<Longrightarrow> snap_items f items = snap_items g items"
proof (induction items)
  case Nil
  then show ?case by simp
next
  case (Cons kv kvs)
  obtain k v where kv: "kv = (k, v)" by (cases kv)
  have "f c' = g c'" if "(k', PRef c') \<in> set kvs" for k' c'
    using Cons.prems[of k' c'] that by simp
  then have rest: "snap_items f kvs = snap_items g kvs"
    by (rule Cons.IH)
  show ?case
  proof (cases v)
    case (PStr s)
    then show ?thesis using kv rest by (simp split: option.splits)
  next
    case (PRef c)
    then have "f c = g c" using Cons.prems[of k c] kv by simp
    then show ?thesis using kv PRef rest by (simp split: option.splits)
  qed
qed

lemma snap_items_mono:
  "snap_items f items = Some ts \<Longrightarrow> (\<And>c t. f c = Some t \<Longrightarrow> g c = Some t)
     \<Longrightarrow> snap_items g items = Some ts"
proof (induction items arbitrary: ts)
  case Nil
  then show ?case by simp
next
  case (Cons kv kvs)
  obtain k v where kv: "kv = (k, v)" by (cases kv)
  show ?case
  proof (cases v)
    case (PStr s)
    then show ?thesis using kv Cons by (auto split: option.splits)
  next
    case (PRef c)
    then show ?thesis using kv Cons by (auto split: option.splits)
  qed
qed

lemma snapshot_append: "snapshot n h a = Some t \<Longrightarrow> snapshot n (h @ ext) a = Some t"
proof (induction n arbitrary: a t)
  case 0
  then show ?case by simp
next
  case (Suc n)
  from Suc.prems obtain ts where a: "a < length h"
    and ts: "snap_items (snapshot n h) (h ! a) = Some ts" and t: "t = TDict ts"
    by (auto split: if_splits)
  have "snap_items (snapshot n (h @ ext)) (h ! a) = Some ts"
    using snap_items_mono[OF ts] Suc.IH by blast
  then show ?case using a t by (simp add: nth_append)
qed

lemma snap_items_append:
  "snap_items (snapshot n h) items = Some ts \<Longrightarrow> snap_items (snapshot n (h @ ext)) items = Some ts"
  using snap_items_mono snapshot_append by blast

lemma copy_items_snap:
  assumes IH: "\<And>h a t. snapshot n h a = Some t \<Longrightarrow>
                 \<exists>h' a'. deepcopy n h a = Some (h', a') \<and> snapshot n h' a' = Some t"
  shows "snap_items (snapshot n h) items = Some ts \<Longrightarrow>
     \<exists>h' items'. copy_items (deepcopy n) h items = Some (h', items')
        \<and> snap_items (snapshot n h') items' = Some ts"
proof (induction items arbitrary: h ts)
  case Nil
  then show ?case by simp
next
  case (Cons kv kvs)
  obtain k v where kv: "kv = (k, v)" by (cases kv)
  show ?case
  proof (cases v)
    case (PStr s)
    with Cons.prems kv obtain ts' where 1: "snap_items (snapshot n h) kvs = Some ts'"
      and ts: "ts = (k, TStr s) # ts'" by (auto split: option.splits)
    from Cons.IH[OF 1] show ?thesis using kv PStr ts by auto
  next
    case (PRef a)
    with Cons.prems kv obtain t ts' where t: "snapshot n h a = Some t"
      and 1: "snap_items (snapshot n h) kvs = Some ts'"
      and ts: "ts = (k, t) # ts'" by (auto split: option.splits)
    from IH[OF t] obtain h1 a1 where d: "deepcopy n h a = Some (h1, a1)"
      and s1: "snapshot n h1 a1 = Some t" by blast
    from copy_okD[OF deepcopy_ok d] obtain e1 where e1: "h1 = h @ e1" by blast
    have "snap_items (snapshot n h1) kvs = Some ts'"
      using snap_items_append[OF 1] e1 by simp
    from Cons.IH[OF this] obtain h2 kvs' where c: "copy_items (deepcopy n) h1 kvs = Some (h2, kvs')"
      and s2: "snap_items (snapshot n h2) kvs' = Some ts'" by blast
    from copy_items_struct[OF deepcopy_ok c] obtain e2 where e2: "h2 = h1 @ e2" by blast
    have "snapshot n h2 a1 = Some t" using snapshot_append[OF s1] e2 by simp
    then show ?thesis using kv PRef d c s2 ts by simp
  qed
qed

lemma deepcopy_snapshot:
  "snapshot n h a = Some t \<Longrightarrow>
     \<exists>h' a'. deepcopy n h a = Some (h', a') \<and> snapshot n h' a' = Some t"
proof (induction n arbitrary: h a t)
  case 0
  then show ?case by simp
next
  case (Suc n)
  from Suc.prems obtain ts where a: "a < length h"
    and ts: "snap_items (snapshot n h) (h ! a) = Some ts" and t: "t = TDict ts"
    by (auto split: if_splits)
  from copy_items_snap[OF Suc.IH ts] obtain h1 items' where
    c: "copy_items (deepcopy n) h (h ! a) = Some (h1, items')"
    and s: "snap_items (snapshot n h1) items' = Some ts" by blast
  have "snap_items (snapshot n (h1 @ [items'])) items' = Some ts"
    using snap_items_append[OF s] .
  then show ?case using a c t by (simp add: deref_def alloc_def)
qed

subsection \<open>Reachability\<close>

lemma reach_trans: "x \<in> reach h c \<Longrightarrow> c \<in> reach h r \<Longrightarrow> x \<in> reach h r"
  by (induction rule: reach.induct) (auto intro: reach.intros)

lemma snapshot_write_other:
  "a \<notin> reach h r \<Longrightarrow> snapshot n (h[a := c]) r = snapshot n h r"
proof (induction n arbitrary: r)
  case 0
  then show ?case by simp
next
  case (Suc n)
  have ne: "r \<noteq> a" using Suc.prems reach_root by metis
  show ?case
  proof (cases "r < length h")
    case False
    then show ?thesis by simp
  next
    case True
    have "snap_items (snapshot n (h[a := c])) (h ! r) = snap_items (snapshot n h) (h ! r)"
    proof (rule snap_items_cong)
      fix k x assume "(k, PRef x) \<in> set (h ! r)"
      then have "x \<in> reach h r" using True
        by (auto intro: reach_step[OF reach_root] simp: deref_def)
      then have "a \<notin> reach h x" using Suc.prems reach_trans by blast
      then show "snapshot n (h[a := c]) x = snapshot n h x" by (rule Suc.IH)
    qed
    then show ?thesis using True ne by simp
  qed
qed

lemma reach_fresh_region:
  assumes "fresh_region h n" "n \<le> r" "r < length h"
  shows "x \<in> reach h r \<Longrightarrow> n \<le> x \<and> x < length h"
proof (induction rule: reach.induct)
  case reach_root
  then show ?case using assms by simp
next
  case (reach_step b k c)
  then have "refs_in (h ! b) n (length h)" using assms(1) by (simp add: fresh_region_def)
  then show ?case using reach_step by (auto simp: refs_in_def deref_def)
qed

lemma reach_closed_prefix:
  assumes "heap_closed h0" "r < length h0"
  shows "x \<in> reach (h0 @ ext) r \<Longrightarrow> x < length h0"
proof (induction rule: reach.induct)
  case reach_root
  then show ?case using assms by simp
next
  case (reach_step b k c)
  then have "(k, PRef c) \<in> set (h0 ! b)" by (simp add: deref_def nth_append)
  then show ?case using assms(1) reach_step.IH unfolding heap_closed_def by fastforce
qed


subsection \<open>Closed stores\<close>

lemma heap_closed_refs: "heap_closed h = (\<forall>b < length h. refs_in (h ! b) 0 (length h))"
  unfolding heap_closed_def refs_in_def
  by (auto split: pyval.splits)

lemma heap_closed_extend:
  assumes "heap_closed h" "fresh_region (h @ ext) (length h)"
  shows "heap_closed (h @ ext)"
  unfolding heap_closed_refs
proof (intro allI impI)
  fix b assume b: "b < length (h @ ext)"
  show "refs_in ((h @ ext) ! b) 0 (length (h @ ext))"
  proof (cases "b < length h")
    case True
    then have "refs_in (h ! b) 0 (length h)" using assms(1) by (simp add: heap_closed_refs)
    then show ?thesis using True by (auto simp: nth_append intro: refs_in_mono)
  next
    case False
    then have "refs_in ((h @ ext) ! b) (length h) (length (h @ ext))"
      using assms(2) b by (simp add: fresh_region_def)
    then show ?thesis by (auto intro: refs_in_mono)
  qed
qed

lemma snapshot_restrict:
  "heap_closed h \<Longrightarrow> c < length h \<Longrightarrow> snapshot n (h @ ext) c = snapshot n h c"
proof (induction n arbitrary: c)
  case 0
  then show ?case by simp
next
  case (Suc n)
  have r: "refs_in (h ! c) 0 (length h)" using Suc.prems by (simp add: heap_closed_refs)
  have "snap_items (snapshot n (h @ ext)) (h ! c) = snap_items (snapshot n h) (h ! c)"
  proof (rule snap_items_cong)
    fix k x assume "(k, PRef x) \<in> set (h ! c)"
    then have "x < length h" using r by (auto simp: refs_in_def)
    then show "snapshot n (h @ ext) x = snapshot n h x" using Suc by simp
  qed
  then show ?case using Suc.prems by (simp add: nth_append)
qed

lemma copy_items_defined:
  assumes IH: "\<And>h a r. heap_closed h \<Longrightarrow> a < length h \<Longrightarrow> deepcopy n h a = Some r
                 \<Longrightarrow> \<exists>t. snapshot n h a = Some t"
  shows "heap_closed h \<Longrightarrow> refs_in items 0 (length h) \<Longrightarrow>
     copy_items (deepcopy n) h items = Some r \<Longrightarrow> \<exists>ts. snap_items (snapshot n h) items = Some ts"
proof (induction items arbitrary: h r)
  case Nil
  then show ?case by simp
next
  case (Cons kv kvs)
  obtain k v where kv: "kv = (k, v)" by (cases kv)
  show ?case
  proof (cases v)
    case (PStr s)
    with Cons.prems kv obtain r' where 1: "copy_items (deepcopy n) h kvs = Some r'"
      by (auto split: option.splits)
    have "refs_in kvs 0 (length h)" using Cons.prems(2) kv PStr by (simp add: refs_in_Cons_Str)
    from Cons.IH[OF Cons.prems(1) this 1] show ?thesis using kv PStr by auto
  next
    case (PRef a)
    with Cons.prems kv obtain h1 a1 r' where d: "deepcopy n h a = Some (h1, a1)"
      and 1: "copy_items (deepcopy n) h1 kvs = Some r'"
      by (auto split: option.splits)
    have a: "a < length h" and rk: "refs_in kvs 0 (length h)"
      using Cons.prems(2) kv PRef by (simp_all add: refs_in_Cons_Ref)
    from IH[OF Cons.prems(1) a d] obtain t where t: "snapshot n h a = Some t" by blast
    from copy_okD[OF deepcopy_ok d] obtain e1 where e1: "h1 = h @ e1"
      and fr: "fresh_region h1 (length h)" by blast
    have c1: "heap_closed h1" using heap_closed_extend Cons.prems(1) fr e1 by simp
    have "refs_in kvs 0 (length h1)" using rk e1 by (auto intro: refs_in_mono)
    from Cons.IH[OF c1 this 1] obtain ts where ts: "snap_items (snapshot n h1) kvs = Some ts"
      by blast
    have "snap_items (snapshot n h1) kvs = snap_items (snapshot n h) kvs"
    proof (rule snap_items_cong)
      fix k' x assume "(k', PRef x) \<in> set kvs"
      then have "x < length h" using rk by (auto simp: refs_in_def)
      then show "snapshot n h1 x = snapshot n h x"
        using snapshot_restrict[OF Cons.prems(1)] e1 by simp
    qed
    with ts have "snap_items (snapshot n h) kvs = Some ts" by simp
    then show ?thesis using t kv PRef by simp
  qed
qed

lemma deepcopy_defined:
  "heap_closed h \<Longrightarrow> a < length h \<Longrightarrow> deepcopy n h a = Some r \<Longrightarrow> \<exists>t. snapshot n h a = Some t"
proof (induction n arbitrary: h a r)
  case 0
  then show ?case by simp
next
  case (Suc n)
  from Suc.prems(3) obtain r' where c: "copy_items (deepcopy n) h (h ! a) = Some r'"
    using Suc.prems(2) by (auto split: option.splits simp: deref_def)
  have "refs_in (h ! a) 0 (length h)" using Suc.prems by (simp add: heap_closed_refs)
  from copy_items_defined[OF Suc.IH Suc.prems(1) this c]
  show ?case using Suc.prems(2) by auto
qed

lemma deepcopy_closed:
  assumes "heap_closed h" "a < length h" "deepcopy n h a = Some (h', a')"
  shows "\<exists>t. snapshot n h a = Some t \<and> snapshot n h' a' = Some t"
    and "heap_closed h'"
proof -
  from deepcopy_defined[OF assms] obtain t where t: "snapshot n h a = Some t" by blast
  from deepcopy_snapshot[OF t] assms(3) show "\<exists>t. snapshot n h a = Some t \<and> snapshot n h' a' = Some t"
    using t by auto
  from copy_okD[OF deepcopy_ok assms(3)] obtain ext where "h' = h @ ext" "fresh_region h' (length h)"
    by blast
  then show "heap_closed h'" using heap_closed_extend assms(1) by simp
qed

subsection \<open>Closedness is kept by the resolver and by registration\<close>

lemma set_update_subset: "set (AList.update k v al) \<subseteq> insert (k, v) (set al)"
  by (induction al) auto

lemma refs_in_update:
  assumes "refs_in acc lo hi" "case v of PStr s \<Rightarrow> True | PRef c \<Rightarrow> lo \<le> c \<and> c < hi"
  shows "refs_in (AList.update k v acc) lo hi"
  unfolding refs_in_def
proof (intro allI impI)
  fix k' c assume "(k', PRef c) \<in> set (AList.update k v acc)"
  then have "(k', PRef c) = (k, v) \<or> (k', PRef c) \<in> set acc"
    using set_update_subset[of k v acc] by blast
  then show "lo \<le> c \<and> c < hi"
  proof
    assume "(k', PRef c) = (k, v)"
    then show ?thesis using assms(2) by auto
  next
    assume "(k', PRef c) \<in> set acc"
    then show ?thesis using assms(1) by (simp add: refs_in_def)
  qed
qed

lemma refs_in_dict_update:
  "refs_in acc lo hi \<Longrightarrow> refs_in other lo hi \<Longrightarrow> refs_in (dict_update acc other) lo hi"
  unfolding dict_update_def
proof (induction other arbitrary: acc)
  case Nil
  then show ?case by simp
next
  case (Cons kv other)
  obtain k v where kv: "kv = (k, v)" by (cases kv)
  have v: "case v of PStr s \<Rightarrow> True | PRef c \<Rightarrow> lo \<le> c \<and> c < hi"
    using Cons.prems(2) kv by (auto simp: refs_in_def split: pyval.splits)
  have r: "refs_in other lo hi" using Cons.prems(2) by (auto simp: refs_in_def)
  show ?case using Cons.IH[OF refs_in_update[OF Cons.prems(1) v] r] kv by simp
qed

lemma refs_in_deref: "heap_closed h \<Longrightarrow> refs_in (deref h a) 0 (length h)"
  by (simp add: deref_def heap_closed_refs refs_in_Nil)

lemma refs_in_fold_gather:
  assumes "heap_closed h"
  shows "refs_in acc 0 (length h) \<Longrightarrow> refs_in (fold (gather_step h) cs acc) 0 (length h)"
proof (induction cs arbitrary: acc)
  case Nil
  then show ?case by simp
next
  case (Cons c cs)
  have "refs_in (gather_step h c acc) 0 (length h)"
    using Cons.prems refs_in_deref[OF assms]
    by (auto simp: gather_step_def intro: refs_in_dict_update split: option.splits)
  then show ?case using Cons.IH by simp
qed

lemma refs_in_gather:
  "heap_closed h \<Longrightarrow> refs_in (gather_all_children_options h cls) 0 (length h)"
  unfolding gather_all_children_options_def
  by (rule refs_in_fold_gather) (simp_all add: refs_in_Nil)

lemma heap_closed_snoc:
  assumes "heap_closed h" "refs_in items 0 (length h)"
  shows "heap_closed (h @ [items])"
  unfolding heap_closed_refs
proof (intro allI impI)
  fix b assume "b < length (h @ [items])"
  then consider "b < length h" | "b = length h" by fastforce
  then show "refs_in ((h @ [items]) ! b) 0 (length (h @ [items]))"
  proof cases
    case 1
    then have "refs_in (h ! b) 0 (length h)" using assms(1) by (simp add: heap_closed_refs)
    then show ?thesis using 1 by (auto simp: nth_append intro: refs_in_mono)
  next
    case 2
    then show ?thesis using assms(2) by (auto intro: refs_in_mono)
  qed
qed

lemma register_wf:
  assumes wf: "wf_design design"
    and reg: "register_class_with_design depth cls design key component_template = (Inr (), d1)"
  shows "wf_design d1 \<and> key \<in> dom (template_options d1)"
proof (cases "key \<in> dom (template_options design)")
  case True
  then show ?thesis using wf reg by (auto simp: register_class_with_design_def)
next
  case False
  define h where "h = objects design"
  have ch: "heap_closed h" and tl: "\<And>k t. template_options design k = Some t \<Longrightarrow> t < length h"
    using wf by (auto simp: wf_design_def h_def)
  define src where "src =
     (case component_template of
        Some a \<Rightarrow> if deref h a \<noteq> [] then (h, a)
                  else alloc h (gather_all_children_options h cls)
      | None \<Rightarrow> alloc h (gather_all_children_options h cls))"
  obtain h1 a1 where src: "src = (h1, a1)" by (cases src)
  have c1: "heap_closed h1 \<and> a1 < length h1 \<and> length h \<le> length h1"
  proof (cases "\<exists>a. component_template = Some a \<and> deref h a \<noteq> []")
    case True
    then obtain a where "component_template = Some a" "deref h a \<noteq> []" by blast
    moreover then have "a < length h" by (auto simp: deref_def split: if_splits)
    ultimately show ?thesis using src ch by (simp add: src_def)
  next
    case False
    then have "src = alloc h (gather_all_children_options h cls)"
      by (auto simp: src_def split: option.splits)
    then have "h1 = h @ [gather_all_children_options h cls]" "a1 = length h"
      using src by (simp_all add: alloc_def)
    then show ?thesis using heap_closed_snoc[OF ch refs_in_gather[OF ch]] by simp
  qed
  from reg False obtain h2 stored where dc: "deepcopy depth h1 a1 = Some (h2, stored)"
    and d1: "d1 = design\<lparr>objects := h2, template_options := (template_options design)(key \<mapsto> stored)\<rparr>"
    using src unfolding register_class_with_design_def src_def h_def
    by (auto simp: Let_def split: option.splits prod.splits)
  from deepcopy_closed(2)[OF _ _ dc] c1 have c2: "heap_closed h2" by blast
  from copy_okD[OF deepcopy_ok dc] obtain ext where e: "h2 = h1 @ ext" and s: "stored < length h2"
    by blast
  have le: "length h \<le> length h2" using c1 e by simp
  have old: "t < length h2" if "template_options design k = Some t" for k t
    using tl[OF that] le by simp
  have o1: "objects d1 = h2" and t1: "template_options d1 = (template_options design)(key \<mapsto> stored)"
    by (simp_all add: d1)
  have "t < length (objects d1)" if "template_options d1 k = Some t" for k t
  proof (cases "k = key")
    case True
    then show ?thesis using that s by (simp add: o1 t1)
  next
    case False
    then have "template_options design k = Some t" using that by (simp add: t1)
    then show ?thesis using old by (simp add: o1)
  qed
  moreover have "heap_closed (objects d1)" using c2 by (simp add: o1)
  moreover have "key \<in> dom (template_options d1)" by (simp add: t1)
  ultimately show ?thesis unfolding wf_design_def by blast
qed

lemma isolated_copy:
  assumes ch: "heap_closed H" and t: "t < length H"
    and dc: "deepcopy depth (H @ [deref H t]) (length H) = Some (h4, opts)"
  shows "\<exists>tr. snapshot depth h4 t = Some tr \<and> snapshot depth h4 opts = Some tr
           \<and> (\<forall>a \<in> reach h4 opts. a \<notin> reach h4 t)"
proof -
  define h3 where "h3 = H @ [deref H t]"
  have c3: "heap_closed h3" unfolding h3_def
    by (rule heap_closed_snoc[OF ch refs_in_deref[OF ch]])
  have dc3: "deepcopy depth h3 (length H) = Some (h4, opts)" using dc by (simp add: h3_def)
  from deepcopy_closed(1)[OF c3 _ dc3] obtain tr where
    w: "snapshot depth h3 (length H) = Some tr" and o: "snapshot depth h4 opts = Some tr"
    by (auto simp: h3_def)
  have same: "snapshot depth h3 t = snapshot depth h3 (length H)"
    using t by (cases depth) (simp_all add: h3_def nth_append deref_def)
  from copy_okD[OF deepcopy_ok dc3] obtain ext where e: "h4 = h3 @ ext"
    and lo: "length h3 \<le> opts" and hi: "opts < length h4" and fr: "fresh_region h4 (length h3)"
    by blast
  have st: "snapshot depth h4 t = Some tr"
    using snapshot_append[of depth h3 t tr ext] same w e by simp
  have "a \<notin> reach h4 t" if "a \<in> reach h4 opts" for a
  proof
    assume "a \<in> reach h4 t"
    then have "a < length h3"
      using reach_closed_prefix[OF c3, of t a ext] t e by (simp add: h3_def)
    moreover have "length h3 \<le> a" using reach_fresh_region[OF fr lo hi that] by simp
    ultimately show False by simp
  qed
  then show ?thesis using st o by blast
qed

subsection \<open>Writes that stay clear of a template\<close>

lemma reach_sub: "c \<in> reach h x \<Longrightarrow> y \<in> reach h c \<Longrightarrow> y \<in> reach h x"
  by (rule reach_trans)

lemma reach_succ: "(k, PRef c) \<in> set (deref h b) \<Longrightarrow> c \<in> reach h b"
  by (rule reach_step[OF reach_root])

lemma deref_update: "deref (h[a := items]) b = (if b = a \<and> a < length h then items else deref h b)"
  unfolding deref_def by (cases "b = a") simp_all

lemma reach_write_sub:
  "y \<in> reach (h[a := items]) x \<Longrightarrow>
     y \<in> reach h x \<or> y \<in> reach h a \<or> (\<exists>k c. (k, PRef c) \<in> set items \<and> y \<in> reach h c)"
proof (induction rule: reach.induct)
  case reach_root
  show ?case by (rule disjI1) (rule reach.reach_root)
next
  case (reach_step b k c)
  show ?case
  proof (cases "b = a \<and> a < length h")
    case True
    then have "(k, PRef c) \<in> set items" using reach_step.hyps(2) by (simp add: deref_update)
    moreover have "c \<in> reach h c" by (rule reach.reach_root)
    ultimately show ?thesis by blast
  next
    case False
    then have "deref (h[a := items]) b = deref h b" by (auto simp: deref_update)
    then have kc: "(k, PRef c) \<in> set (deref h b)" using reach_step.hyps(2) by simp
    from reach_step.IH show ?thesis
    proof (elim disjE exE conjE)
      assume "b \<in> reach h x"
      then have "c \<in> reach h x" using kc by (rule reach.reach_step)
      then show ?thesis by blast
    next
      assume "b \<in> reach h a"
      then have "c \<in> reach h a" using kc by (rule reach.reach_step)
      then show ?thesis by blast
    next
      fix k' c' assume 1: "(k', PRef c') \<in> set items" and "b \<in> reach h c'"
      then have "c \<in> reach h c'" using kc by (meson reach.reach_step)
      with 1 show ?thesis by blast
    qed
  qed
qed

lemma sep_write:
  assumes a: "reach h a \<inter> T = {}"
    and items: "\<And>k c. (k, PRef c) \<in> set items \<Longrightarrow> reach h c \<inter> T = {}"
    and x: "reach h x \<inter> T = {}"
  shows "reach (h[a := items]) x \<inter> T = {}"
proof -
  have "y \<notin> T" if "y \<in> reach (h[a := items]) x" for y
    using reach_write_sub[OF that] a items x by blast
  then show ?thesis by blast
qed

lemma reach_frame:
  assumes "\<And>b. b \<in> reach h t \<Longrightarrow> deref h' b = deref h b"
  shows "reach h' t = reach h t"
proof (intro set_eqI iffI)
  fix y assume "y \<in> reach h' t"
  then show "y \<in> reach h t"
  proof (induction rule: reach.induct)
    case reach_root
    show ?case by (rule reach.reach_root)
  next
    case (reach_step b k c)
    then have "(k, PRef c) \<in> set (deref h b)" using assms by simp
    with reach_step.IH show ?case by (rule reach.reach_step)
  qed
next
  fix y assume "y \<in> reach h t"
  then show "y \<in> reach h' t"
  proof (induction rule: reach.induct)
    case reach_root
    show ?case by (rule reach.reach_root)
  next
    case (reach_step b k c)
    then have "(k, PRef c) \<in> set (deref h' b)" using assms by simp
    with reach_step.IH show ?case by (rule reach.reach_step)
  qed
qed

lemma snapshot_frame:
  assumes len: "length h' = length h"
  shows "(\<And>b. b \<in> reach h t \<Longrightarrow> deref h' b = deref h b) \<Longrightarrow> snapshot n h' t = snapshot n h t"
proof (induction n arbitrary: t)
  case 0
  show ?case by simp
next
  case (Suc n)
  show ?case
  proof (cases "t < length h")
    case False
    then show ?thesis using len by simp
  next
    case True
    have cell: "h' ! t = h ! t"
      using Suc.prems[OF reach.reach_root] True len by (simp add: deref_def)
    have "snap_items (snapshot n h') (h ! t) = snap_items (snapshot n h) (h ! t)"
    proof (rule snap_items_cong)
      fix k c assume "(k, PRef c) \<in> set (h ! t)"
      then have c: "c \<in> reach h t" using True by (intro reach_succ) (simp add: deref_def)
      show "snapshot n h' c = snapshot n h c"
      proof (rule Suc.IH)
        fix b assume "b \<in> reach h c"
        then have "b \<in> reach h t" using c by (rule reach_sub[rotated])
        then show "deref h' b = deref h b" by (rule Suc.prems)
      qed
    qed
    then show ?thesis using True len cell by simp
  qed
qed

lemma update_okD:
  assumes "update_ok T f" "reach h target \<inter> T = {}"
    "\<And>k c. (k, PRef c) \<in> set other \<Longrightarrow> reach h c \<inter> T = {}"
    "f h target other = (r, h')"
  shows "length h' = length h" "\<And>b. b \<in> T \<Longrightarrow> deref h' b = deref h b"
    "\<And>x. reach h x \<inter> T = {} \<Longrightarrow> reach h' x \<inter> T = {}"
  using assms unfolding update_ok_def by blast+

lemma sep_succ:
  assumes "reach h b \<inter> T = {}" "(k, PRef c) \<in> set (deref h b)"
  shows "reach h c \<inter> T = {}"
proof -
  have "c \<in> reach h b" using assms(2) by (rule reach_succ)
  then have "reach h c \<subseteq> reach h b" using reach_sub by blast
  then show ?thesis using assms(1) by blast
qed

lemma write_frame:
  assumes "reach h a \<inter> T = {}"
  shows "\<And>b. b \<in> T \<Longrightarrow> deref (h[a := items]) b = deref h b"
proof -
  fix b assume "b \<in> T"
  moreover have "a \<in> reach h a" by (rule reach.reach_root)
  ultimately have "b \<noteq> a" using assms by blast
  then show "deref (h[a := items]) b = deref h b" by (simp add: deref_update)
qed

lemma update_items_ok:
  assumes f: "update_ok T f"
  shows "reach h target \<inter> T = {} \<Longrightarrow>
         (\<And>k c. (k, PRef c) \<in> set other \<Longrightarrow> reach h c \<inter> T = {}) \<Longrightarrow>
         update_items f h target other = (r, h') \<Longrightarrow>
         length h' = length h \<and> (\<forall>b \<in> T. deref h' b = deref h b)
         \<and> (\<forall>x. reach h x \<inter> T = {} \<longrightarrow> reach h' x \<inter> T = {})"
proof (induction other arbitrary: h)
  case Nil
  then show ?case by simp
next
  case (Cons kv kvs)
  obtain k v where kv: "kv = (k, v)" by (cases kv)
  have rest: "reach h c' \<inter> T = {}" if "(k', PRef c') \<in> set kvs" for k' c'
    using Cons.prems(2)[of k' c'] that by simp
  show ?case
  proof (cases "\<exists>b c. map_of (deref h target) k = Some (PRef b) \<and> v = PRef c")
    case True
    then obtain b c where b: "map_of (deref h target) k = Some (PRef b)" and c: "v = PRef c"
      by blast
    obtain r1 h1 where f1: "f h b (deref h c) = (r1, h1)" by (cases "f h b (deref h c)")
    have sb: "reach h b \<inter> T = {}"
      using sep_succ[OF Cons.prems(1) map_of_SomeD[OF b]] .
    have sc: "reach h c \<inter> T = {}" using Cons.prems(2)[of k c] kv c by simp
    have so: "reach h c' \<inter> T = {}" if "(k', PRef c') \<in> set (deref h c)" for k' c'
      using sep_succ[OF sc that] .
    have o1: "length h1 = length h"
      by (rule update_okD(1)[OF f sb _ f1]) (rule so, assumption)
    have o2: "deref h1 b' = deref h b'" if "b' \<in> T" for b'
      by (rule update_okD(2)[OF f sb _ f1 that]) (rule so, assumption)
    have o3: "reach h1 x \<inter> T = {}" if "reach h x \<inter> T = {}" for x
      by (rule update_okD(3)[OF f sb _ f1 that]) (rule so, assumption)
    show ?thesis
    proof (cases r1)
      case (Some e)
      then have "r = Some e" "h' = h1" using Cons.prems(3) kv b c f1 by simp_all
      then show ?thesis using o1 o2 o3 by simp
    next
      case None
      then have step: "update_items f h1 target kvs = (r, h')"
        using Cons.prems(3) kv b c f1 by simp
      have t1: "reach h1 target \<inter> T = {}" using o3[OF Cons.prems(1)] .
      have r1: "reach h1 c' \<inter> T = {}" if "(k', PRef c') \<in> set kvs" for k' c'
        using o3[OF rest[OF that]] .
      from Cons.IH[OF t1 r1 step] show ?thesis using o1 o2 o3 by simp
    qed
  next
    case False
    define h1 where "h1 = h[target := AList.update k v (deref h target)]"
    have step: "update_items f h1 target kvs = (r, h')"
      using Cons.prems(3) kv False unfolding h1_def
      by (auto split: option.splits pyval.splits)
    have items: "reach h c' \<inter> T = {}"
      if "(k', PRef c') \<in> set (AList.update k v (deref h target))" for k' c'
    proof -
      from that have "(k', PRef c') = (k, v) \<or> (k', PRef c') \<in> set (deref h target)"
        using set_update_subset[of k v "deref h target"] by blast
      then show ?thesis
      proof
        assume "(k', PRef c') = (k, v)"
        then show ?thesis using Cons.prems(2)[of k c'] kv by simp
      next
        assume "(k', PRef c') \<in> set (deref h target)"
        then show ?thesis by (rule sep_succ[OF Cons.prems(1)])
      qed
    qed
    have sepw: "reach h1 x \<inter> T = {}" if "reach h x \<inter> T = {}" for x
      unfolding h1_def by (rule sep_write[OF Cons.prems(1) items that])
    have fr: "deref h1 b = deref h b" if "b \<in> T" for b
      unfolding h1_def by (rule write_frame[OF Cons.prems(1) that])
    have len: "length h1 = length h" by (simp add: h1_def)
    have r1: "reach h1 c' \<inter> T = {}" if "(k', PRef c') \<in> set kvs" for k' c'
      using sepw[OF rest[OF that]] .
    from Cons.IH[OF sepw[OF Cons.prems(1)] r1 step]
    show ?thesis using fr len sepw by simp
  qed
qed

lemma Dict_update_ok: "update_ok T (Dict_update n)"
proof (induction n)
  case 0
  show ?case by (simp add: update_ok_def)
next
  case (Suc n)
  show ?case
    unfolding update_ok_def
  proof (intro allI impI)
    fix h target other r h'
    assume 1: "reach h target \<inter> T = {}"
      and 2: "\<forall>k c. (k, PRef c) \<in> set other \<longrightarrow> reach h c \<inter> T = {}"
      and 3: "Dict_update (Suc n) h target other = (r, h')"
    from 3 have "update_items (Dict_update n) h target other = (r, h')" by simp
    from update_items_ok[OF Suc 1 _ this] 2
    show "length h' = length h \<and> (\<forall>b \<in> T. deref h' b = deref h b)
        \<and> (\<forall>x. reach h x \<inter> T = {} \<longrightarrow> reach h' x \<inter> T = {})" by blast
  qed
qed

lemma writes_keep_template:
  "admissible h opts t ws \<Longrightarrow> shares_nothing h opts t \<Longrightarrow> snapshot n h t = Some tr \<Longrightarrow>
     snapshot n (apply_writes h ws) t = Some tr \<and> shares_nothing (apply_writes h ws) opts t"
proof (induction ws arbitrary: h)
  case Nil
  then show ?case by simp
next
  case (Cons w ws)
  obtain a items where w: "w = (a, items)" by (cases w)
  define T where "T = reach h t"
  define h1 where "h1 = h[a := items]"
  from Cons.prems(1) w have a: "a \<in> reach h opts"
    and it: "\<And>k c. (k, PRef c) \<in> set items \<Longrightarrow> shares_nothing h c t"
    and ad: "admissible h1 opts t ws" by (simp_all add: h1_def)
  have so: "reach h opts \<inter> T = {}" using Cons.prems(2) by (simp add: shares_nothing_def T_def)
  have sa: "reach h a \<inter> T = {}"
  proof -
    have "reach h a \<subseteq> reach h opts" using a reach_sub by blast
    then show ?thesis using so by blast
  qed
  have si: "reach h c \<inter> T = {}" if "(k, PRef c) \<in> set items" for k c
    using it[OF that] by (simp add: shares_nothing_def T_def)
  have fr: "deref h1 b = deref h b" if "b \<in> reach h t" for b
    unfolding h1_def using write_frame[OF sa, of b items] that by (simp add: T_def)
  have rt: "reach h1 t = T" unfolding T_def by (rule reach_frame) (rule fr)
  have "reach h1 opts \<inter> T = {}" unfolding h1_def by (rule sep_write[OF sa si so])
  then have s1: "shares_nothing h1 opts t" by (simp add: shares_nothing_def rt)
  have "snapshot n h1 t = snapshot n h t"
    by (rule snapshot_frame) (simp add: h1_def, rule fr)
  then have n1: "snapshot n h1 t = Some tr" using Cons.prems(3) by simp
  from Cons.IH[OF ad s1 n1] show ?case by (simp add: w h1_def)
qed

lemma update_options_keeps_template:
  assumes sep: "shares_nothing (objects d) opts t"
    and uo: "\<And>a. uo = Some a \<Longrightarrow> shares_nothing (objects d) a t"
    and snap: "snapshot n (objects d) t = Some tr"
    and up: "update_options depth opts uo d = (r, d2)"
  shows "template_options d2 = template_options d \<and> snapshot n (objects d2) t = Some tr
       \<and> shares_nothing (objects d2) opts t"
proof (cases "\<exists>a. uo = Some a \<and> deref (objects d) a \<noteq> []")
  case False
  then have "d2 = d" using up by (auto simp: update_options_def split: option.splits)
  then show ?thesis using sep snap by simp
next
  case True
  then obtain a where a: "uo = Some a" "deref (objects d) a \<noteq> []" by blast
  define h where "h = objects d"
  define T where "T = reach h t"
  obtain r1 h1 where du: "Dict_update depth h opts (deref h a) = (r1, h1)"
    by (cases "Dict_update depth h opts (deref h a)")
  have d2: "d2 = d\<lparr>objects := h1\<rparr>" using up a du by (simp add: update_options_def h_def)
  have so: "reach h opts \<inter> T = {}" using sep by (simp add: shares_nothing_def T_def h_def)
  have sa: "reach h a \<inter> T = {}" using uo[OF a(1)] by (simp add: shares_nothing_def T_def h_def)
  have si: "reach h c \<inter> T = {}" if "(k, PRef c) \<in> set (deref h a)" for k c
    using sep_succ[OF sa that] .
  have len: "length h1 = length h"
    by (rule update_okD(1)[OF Dict_update_ok so _ du]) (rule si, assumption)
  have fr: "deref h1 b = deref h b" if "b \<in> reach h t" for b
    by (rule update_okD(2)[OF Dict_update_ok so _ du]) (rule si, assumption, simp add: T_def that)
  have s1: "reach h1 opts \<inter> T = {}"
    by (rule update_okD(3)[OF Dict_update_ok so _ du so]) (rule si, assumption)
  have rt: "reach h1 t = T" unfolding T_def by (rule reach_frame) (rule fr)
  have "snapshot n h1 t = snapshot n h t" by (rule snapshot_frame[OF len]) (rule fr)
  then show ?thesis using snap s1 rt by (simp add: d2 shares_nothing_def h_def)
qed

section \<open>Claims\<close>

subsection \<open>Option template resolver\<close>

text \<open>
  C1. The resolved template of a component type is the successive merge of each ancestor's
  own \<open>default_options\<close>, most base class first, and a class without \<open>default_options\<close>
  contributes nothing. The resolver asks \<open>hasattr(child, 'default_options')\<close>, which also
  finds an inherited mapping, so a class without a mapping of its own applies its
  ancestor's mapping once more. In a diamond \<open>D(B, C)\<close>, \<open>B(A)\<close>, \<open>C(A)\<close> where \<open>A\<close>, \<open>C\<close> and
  \<open>D\<close> define \<open>default_options\<close> and \<open>B\<close> does not, \<open>B\<close> re-applies the mapping of \<open>A\<close> after
  that of \<open>C\<close>: the key \<open>k\<close> ends with the value of \<open>A\<close>, not with that of the more derived
  \<open>C\<close>. With single inheritance the two agree (\<open>gather_single_inheritance\<close>).
\<close>

theorem gather_diamond:
  "gather_all_children_options diamond_heap class_D = [(''k'', PStr ''a''), (''x'', PStr ''d'')]
   \<and> spec_resolved_template diamond_heap class_D = [(''k'', PStr ''c''), (''x'', PStr ''d'')]"
  by code_simp

subsection \<open>Template registration\<close>

lemma register_present:
  "template_options design template_key = Some stored \<Longrightarrow>
   register_class_with_design depth cls design template_key component_template = (Inr (), design)"
  by (auto simp: register_class_with_design_def)

lemma deepcopy_prefix:
  "deepcopy n h a = Some (h', a') \<Longrightarrow> take (length h) h' = h"
  using copy_okD[OF deepcopy_ok] by (metis append_eq_conv_conj)

text \<open>
  C2. Registration is idempotent: when the type key already has a stored template, a
  further registration with another explicit template, through
  \<open>_register_class_with_design\<close> or through \<open>get_template_options\<close>, leaves the design's
  templates as they are, and every object that existed before is unchanged.
\<close>

theorem registration_idempotent:
  assumes "template_options design template_key = Some stored"
  shows "register_class_with_design depth cls design template_key component_template
           = (Inr (), design)
       \<and> template_options
           (snd (get_template_options depth cls design component_template (Some template_key)))
           = template_options design
       \<and> take (length (objects design))
           (objects (snd (get_template_options depth cls design component_template
              (Some template_key))))
           = objects design"
proof -
  have dom: "template_key \<in> dom (template_options design)" using assms by auto
  show ?thesis
  proof (cases "deepcopy depth (objects design @ [deref (objects design) stored])
                  (length (objects design))")
    case None
    then show ?thesis using assms dom
      by (simp add: register_present get_template_options_def Dict_of_def alloc_def)
  next
    case (Some r)
    obtain h4 o4 where r: "r = (h4, o4)" by (cases r)
    from deepcopy_prefix[OF Some[unfolded r]]
    have "take (length (objects design)) h4 = objects design"
      by (metis append_eq_conv_conj length_append take_take min.absorb1 le_add1)
    then show ?thesis using assms dom Some r
      by (simp add: register_present get_template_options_def Dict_of_def alloc_def)
  qed
qed

lemma design1_stored: "template_options design1 ''lib.A'' = Some 3"
  by (simp add: design1_def register_class_with_design_def design0_def diamond_heap_def
      deref_def alloc_def Let_def eval_nat_numeral)

theorem registration_idempotent_witness:
  "template_options design1 ''lib.A'' = Some 3
   \<and> register_class_with_design 3 class_A design1 ''lib.A'' (Some 2) = (Inr (), design1)
   \<and> template_options (snd (get_template_options 3 class_A design1 (Some 2) (Some ''lib.A'')))
        = template_options design1"
  using registration_idempotent[OF design1_stored, of 3 class_A "Some 2"] design1_stored
  by blast

lemma not_truthy_cases:
  "\<not> truthy h x \<Longrightarrow> x = None \<or> (\<exists>a. x = Some a \<and> deref h a = [])"
  by (cases x) (simp_all add: truthy_def)

lemma register_absent_falsy:
  assumes "template_key \<notin> dom (template_options design)"
    and "\<not> truthy (objects design) component_template"
  shows "register_class_with_design depth cls design template_key component_template =
     (case deepcopy depth
             (objects design @ [gather_all_children_options (objects design) cls])
             (length (objects design)) of
        None \<Rightarrow> (Inl RecursionError, design)
      | Some (h2, stored) \<Rightarrow>
          (Inr (),
           design\<lparr>objects := h2,
             template_options := (template_options design)(template_key \<mapsto> stored)\<rparr>))"
  using not_truthy_cases[OF assms(2)] assms(1)
  by (auto simp: register_class_with_design_def alloc_def)

text \<open>
  C10. At a first registration an explicit template that is \<open>None\<close> or an empty mapping
  counts as no template: the registration does what it does for \<open>None\<close>, and the template
  it stores denotes the merged defaults of the class's ancestry.
\<close>

theorem falsy_template_uses_defaults:
  assumes "template_key \<notin> dom (template_options design)"
    and "\<not> truthy (objects design) component_template"
    and "dict_tree n (objects design) (gather_all_children_options (objects design) cls) = Some tr"
  shows "register_class_with_design (Suc n) cls design template_key component_template
           = register_class_with_design (Suc n) cls design template_key None
       \<and> (\<exists>d' t. register_class_with_design (Suc n) cls design template_key component_template
                    = (Inr (), d')
             \<and> template_options d' template_key = Some t
             \<and> snapshot (Suc n) (objects d') t = Some tr)"
proof -
  define h where "h = objects design"
  define g where "g = gather_all_children_options h cls"
  have none: "\<not> truthy (objects design) None" by (simp add: truthy_def)
  have eq: "register_class_with_design (Suc n) cls design template_key component_template
           = register_class_with_design (Suc n) cls design template_key None"
    by (simp only: register_absent_falsy[OF assms(1) assms(2)]
        register_absent_falsy[OF assms(1) none])
  from assms(3) obtain ts where ts: "snap_items (snapshot n h) g = Some ts" and tr: "tr = TDict ts"
    by (auto simp: dict_tree_def h_def g_def)
  have "snapshot (Suc n) (h @ [g]) (length h) = Some tr"
    using snap_items_append[OF ts, of "[g]"] tr by simp
  from deepcopy_snapshot[OF this] obtain h2 stored where
    dc: "deepcopy (Suc n) (h @ [g]) (length h) = Some (h2, stored)"
    and sn: "snapshot (Suc n) h2 stored = Some tr" by blast
  define D where "D = design\<lparr>objects := h2,
             template_options := (template_options design)(template_key \<mapsto> stored)\<rparr>"
  have res: "register_class_with_design (Suc n) cls design template_key component_template
      = (Inr (), D)"
    using dc by (simp add: register_absent_falsy[OF assms(1) assms(2)] h_def g_def D_def)
  have "template_options D template_key = Some stored" "snapshot (Suc n) (objects D) stored = Some tr"
    using sn by (simp_all add: D_def)
  with res have "\<exists>d' t. register_class_with_design (Suc n) cls design template_key component_template
                    = (Inr (), d')
             \<and> template_options d' template_key = Some t
             \<and> snapshot (Suc n) (objects d') t = Some tr"
    by blast
  with eq show ?thesis by (rule conjI)
qed

lemma wf_design_nested: "wf_design design_nested"
  by (auto simp: wf_design_def heap_closed_def design_nested_def nested_heap_def
      less_Suc_eq nth_Cons' eval_nat_numeral)

theorem falsy_template_uses_defaults_witness:
  "''lib.Qubit'' \<notin> dom (template_options design_nested)
   \<and> \<not> truthy (objects design_nested) (Some 2)
   \<and> register_class_with_design 3 class_Qubit design_nested ''lib.Qubit'' (Some 2)
       = register_class_with_design 3 class_Qubit design_nested ''lib.Qubit'' None
   \<and> (\<exists>d' t. register_class_with_design 3 class_Qubit design_nested ''lib.Qubit'' (Some 2)
                 = (Inr (), d')
          \<and> template_options d' ''lib.Qubit'' = Some t
          \<and> snapshot 3 (objects d') t
               = Some (TDict [(''pad'', TDict [(''w'', TStr ''10um'')]), (''gap'', TStr ''5um'')]))"
proof -
  have h1: "''lib.Qubit'' \<notin> dom (template_options design_nested)"
    by (simp add: design_nested_def)
  have h2: "\<not> truthy (objects design_nested) (Some 2)"
    by (simp add: truthy_def deref_def design_nested_def nested_heap_def)
  have h3: "dict_tree 2 (objects design_nested)
              (gather_all_children_options (objects design_nested) class_Qubit)
            = Some (TDict [(''pad'', TDict [(''w'', TStr ''10um'')]), (''gap'', TStr ''5um'')])"
    by code_simp
  have three: "Suc 2 = 3" by simp
  from falsy_template_uses_defaults[OF h1 h2 h3, unfolded three] h1 h2
  show ?thesis by blast
qed

lemma get_template_options_Inr:
  assumes "get_template_options depth cls design ct tk = (Inr opts, d')"
    and "wf_design design"
    and key: "key = (case tk of None \<Rightarrow> get_unique_class_name cls | Some k \<Rightarrow> k)"
  shows "\<exists>d1 t h4. wf_design d1 \<and> template_options d1 key = Some t
      \<and> deepcopy depth (objects d1 @ [deref (objects d1) t]) (length (objects d1)) = Some (h4, opts)
      \<and> d' = d1\<lparr>objects := h4\<rparr>"
proof -
  obtain r d1 where rd:
    "(if key \<notin> dom (template_options design)
      then register_class_with_design depth cls design key ct
      else (Inr (), design)) = (r, d1)"
    by (cases "if key \<notin> dom (template_options design)
      then register_class_with_design depth cls design key ct
      else (Inr (), design)") auto
  have unfold: "get_template_options depth cls design ct tk =
      (case r of
           Inl e \<Rightarrow> (Inl e, d1)
         | Inr u \<Rightarrow>
             (let d2 =
                    (if key \<notin> dom (template_options d1)
                     then d1\<lparr>error_log := error_log d1 @ [missing_options_message cls]\<rparr>
                     else d1)
              in case template_options d2 key of
                   None \<Rightarrow> (Inl KeyError, d2)
                 | Some t \<Rightarrow>
                     (let (h3, wrapped) = Dict_of (objects d2) t
                      in case deepcopy depth h3 wrapped of
                           None \<Rightarrow> (Inl RecursionError, d2)
                         | Some (h4, copied) \<Rightarrow> (Inr copied, d2\<lparr>objects := h4\<rparr>))))"
    unfolding get_template_options_def key[symmetric] Let_def rd by simp
  from assms(1) unfold have r: "r = Inr ()" by (cases r) auto
  have w1: "wf_design d1 \<and> key \<in> dom (template_options d1)"
  proof (cases "key \<in> dom (template_options design)")
    case True
    then show ?thesis using rd assms(2) by simp
  next
    case False
    then have "register_class_with_design depth cls design key ct = (Inr (), d1)"
      using rd r by simp
    from register_wf[OF assms(2) this] show ?thesis .
  qed
  then obtain t where t: "template_options d1 key = Some t" by auto
  have "get_template_options depth cls design ct tk =
      (case deepcopy depth (objects d1 @ [deref (objects d1) t]) (length (objects d1)) of
         None \<Rightarrow> (Inl RecursionError, d1)
       | Some (h4, copied) \<Rightarrow> (Inr copied, d1\<lparr>objects := h4\<rparr>))"
    using w1 t by (simp add: unfold r Dict_of_def alloc_def)
  with assms(1) obtain h4 where
    "deepcopy depth (objects d1 @ [deref (objects d1) t]) (length (objects d1)) = Some (h4, opts)"
    "d' = d1\<lparr>objects := h4\<rparr>"
    by (auto split: option.splits)
  then show ?thesis using w1 t by blast
qed

text \<open>
  C9, as amended. The options that \<open>get_template_options\<close> returns are a deep copy of the
  stored template: they denote the same tree and share no object with it. Hence the
  constructor's \<open>self.options.update(options)\<close> with overrides that share no object with
  the template, and after it every admissible run of writes to objects of the component's
  options, leave the template stored for the type key denoting what it denoted.
\<close>

theorem options_isolated_from_template:
  assumes "wf_design design"
    and "get_template_options depth cls design component_template template_key = (Inr opts, d')"
  shows "\<exists>t tr.
      template_options d'
        (case template_key of None \<Rightarrow> get_unique_class_name cls | Some k \<Rightarrow> k) = Some t
      \<and> snapshot depth (objects d') t = Some tr
      \<and> snapshot depth (objects d') opts = Some tr
      \<and> shares_nothing (objects d') opts t
      \<and> (\<forall>user_options r d2.
            (\<forall>a. user_options = Some a \<longrightarrow> shares_nothing (objects d') a t)
            \<and> update_options depth opts user_options d' = (r, d2) \<longrightarrow>
              template_options d2 = template_options d'
              \<and> snapshot depth (objects d2) t = Some tr
              \<and> (\<forall>ws. admissible (objects d2) opts t ws \<longrightarrow>
                    snapshot depth (apply_writes (objects d2) ws) t = Some tr))"
proof -
  define key where "key = (case template_key of None \<Rightarrow> get_unique_class_name cls | Some k \<Rightarrow> k)"
  from get_template_options_Inr[OF assms(2) assms(1) key_def] obtain d1 t h4 where
    w1: "wf_design d1" and t: "template_options d1 key = Some t"
    and dc: "deepcopy depth (objects d1 @ [deref (objects d1) t]) (length (objects d1)) = Some (h4, opts)"
    and d': "d' = d1\<lparr>objects := h4\<rparr>" by blast
  have ch: "heap_closed (objects d1)" and tl: "t < length (objects d1)"
    using w1 t by (auto simp: wf_design_def)
  from isolated_copy[OF ch tl dc] obtain tr where
    st: "snapshot depth h4 t = Some tr" and so: "snapshot depth h4 opts = Some tr"
    and sep: "\<And>a. a \<in> reach h4 opts \<Longrightarrow> a \<notin> reach h4 t" by blast
  have o: "objects d' = h4" and tt: "template_options d' key = Some t" by (simp_all add: d' t)
  have sn: "shares_nothing (objects d') opts t"
    using sep by (auto simp: shares_nothing_def o)
  have st': "snapshot depth (objects d') t = Some tr" using st by (simp add: o)
  have up: "template_options d2 = template_options d'
              \<and> snapshot depth (objects d2) t = Some tr
              \<and> (\<forall>ws. admissible (objects d2) opts t ws \<longrightarrow>
                    snapshot depth (apply_writes (objects d2) ws) t = Some tr)"
    if "\<forall>a. uo = Some a \<longrightarrow> shares_nothing (objects d') a t"
      and "update_options depth opts uo d' = (r, d2)" for uo r d2
  proof -
    from that(1) have u: "\<And>a. uo = Some a \<Longrightarrow> shares_nothing (objects d') a t" by blast
    from update_options_keeps_template[OF sn u st' that(2)]
    have 1: "template_options d2 = template_options d'"
      and 2: "snapshot depth (objects d2) t = Some tr"
      and 3: "shares_nothing (objects d2) opts t" by simp_all
    have "snapshot depth (apply_writes (objects d2) ws) t = Some tr"
      if "admissible (objects d2) opts t ws" for ws
      using writes_keep_template[OF that 3 2] by simp
    with 1 2 show ?thesis by blast
  qed
  show ?thesis
    unfolding key_def[symmetric]
    using tt st' so sn up unfolding o by blast
qed

lemma copy_result: "fst (get_template_options 3 class_Qubit design_nested None None) = Inr 10"
  by code_simp

lemma copy_objects:
  "objects design_after_copy =
     [[(''w'', PStr ''10um'')], [(''pad'', PRef 0), (''gap'', PStr ''5um'')],
      [], [(''h'', PStr ''1um'')], [(''pad'', PRef 3)],
      [(''pad'', PRef 0), (''gap'', PStr ''5um'')], [(''w'', PStr ''10um'')],
      [(''pad'', PRef 6), (''gap'', PStr ''5um'')],
      [(''pad'', PRef 6), (''gap'', PStr ''5um'')], [(''w'', PStr ''10um'')],
      [(''pad'', PRef 9), (''gap'', PStr ''5um'')]]"
  unfolding design_after_copy_def by code_simp

lemma copy_template: "template_options design_after_copy ''lib.Qubit'' = Some 7"
  unfolding design_after_copy_def by code_simp

lemma reach_overrides: "x \<in> reach (objects design_after_copy) 4 \<Longrightarrow> x = 4 \<or> x = 3"
proof (induction rule: reach.induct)
  case reach_root
  show ?case by simp
next
  case (reach_step b k c)
  then show ?case by (auto simp: copy_objects deref_def)
qed

lemma reach_template: "x \<in> reach (objects design_after_copy) 7 \<Longrightarrow> x = 7 \<or> x = 6"
proof (induction rule: reach.induct)
  case reach_root
  show ?case by simp
next
  case (reach_step b k c)
  then show ?case by (auto simp: copy_objects deref_def)
qed

lemma overrides_share_nothing: "shares_nothing (objects design_after_copy) 4 7"
  unfolding shares_nothing_def using reach_overrides reach_template by fastforce

lemma update_result: "fst (update_options 3 10 (Some 4) design_after_copy) = None"
  by code_simp

lemma update_merged:
  "snapshot 3 (objects design_after_update) 10
     = Some (TDict [(''pad'', TDict [(''w'', TStr ''10um''), (''h'', TStr ''1um'')]),
                    (''gap'', TStr ''5um'')])"
  unfolding design_after_update_def by code_simp

lemma update_nested: "(''pad'', PRef 9) \<in> set (deref (objects design_after_update) 10)"
  unfolding design_after_update_def by code_simp

lemma written_objects:
  "(objects design_after_update)[9 := [(''w'', PStr ''99um'')]] =
     [[(''w'', PStr ''10um'')], [(''pad'', PRef 0), (''gap'', PStr ''5um'')],
      [], [(''h'', PStr ''1um'')], [(''pad'', PRef 3)],
      [(''pad'', PRef 0), (''gap'', PStr ''5um'')], [(''w'', PStr ''10um'')],
      [(''pad'', PRef 6), (''gap'', PStr ''5um'')],
      [(''pad'', PRef 6), (''gap'', PStr ''5um'')],
      [(''w'', PStr ''99um'')],
      [(''pad'', PRef 9), (''gap'', PStr ''5um'')]]"
  unfolding design_after_update_def by code_simp

lemma reach_written_3:
  "x \<in> reach ((objects design_after_update)[9 := [(''w'', PStr ''99um'')]]) 3 \<Longrightarrow> x = 3"
proof (induction rule: reach.induct)
  case reach_root
  show ?case by simp
next
  case (reach_step b k c)
  then show ?case by (auto simp: written_objects deref_def)
qed

lemma reach_written_template:
  "x \<in> reach ((objects design_after_update)[9 := [(''w'', PStr ''99um'')]]) 7 \<Longrightarrow> x = 7 \<or> x = 6"
proof (induction rule: reach.induct)
  case reach_root
  show ?case by simp
next
  case (reach_step b k c)
  then show ?case by (auto simp: written_objects deref_def)
qed

lemma later_writes_admissible: "admissible (objects design_after_update) 10 7 later_writes"
proof -
  have "shares_nothing ((objects design_after_update)[9 := [(''w'', PStr ''99um'')]]) 3 7"
    unfolding shares_nothing_def using reach_written_3 reach_written_template by fastforce
  moreover have "9 \<in> reach (objects design_after_update) 10"
    using reach_step[OF reach_root update_nested] by simp
  moreover have "10 \<in> reach ((objects design_after_update)[9 := [(''w'', PStr ''99um'')]]) 10"
    by (rule reach_root)
  ultimately show ?thesis by (simp add: later_writes_def)
qed

lemma later_writes_options:
  "snapshot 3 (apply_writes (objects design_after_update) later_writes) 10
     = Some (TDict [(''pad'', TDict [(''h'', TStr ''1um'')]), (''gap'', TStr ''5um'')])"
  unfolding design_after_update_def later_writes_def by code_simp

theorem options_isolated_from_template_witness:
  "wf_design design_nested
   \<and> get_template_options 3 class_Qubit design_nested None None = (Inr 10, design_after_copy)
   \<and> shares_nothing (objects design_after_copy) 4 7
   \<and> update_options 3 10 (Some 4) design_after_copy = (None, design_after_update)
   \<and> snapshot 3 (objects design_after_update) 10
       = Some (TDict [(''pad'', TDict [(''w'', TStr ''10um''), (''h'', TStr ''1um'')]),
                      (''gap'', TStr ''5um'')])
   \<and> admissible (objects design_after_update) 10 7 later_writes
   \<and> snapshot 3 (apply_writes (objects design_after_update) later_writes) 10
       = Some (TDict [(''pad'', TDict [(''h'', TStr ''1um'')]), (''gap'', TStr ''5um'')])
   \<and> snapshot 3 (apply_writes (objects design_after_update) later_writes) 7
       = Some (TDict [(''pad'', TDict [(''w'', TStr ''10um'')]), (''gap'', TStr ''5um'')])"
proof -
  have eq: "get_template_options 3 class_Qubit design_nested None None = (Inr 10, design_after_copy)"
    using copy_result unfolding design_after_copy_def by (metis prod.collapse)
  have up: "update_options 3 10 (Some 4) design_after_copy = (None, design_after_update)"
    using update_result unfolding design_after_update_def by (metis prod.collapse)
  from options_isolated_from_template[OF wf_design_nested eq] obtain t tr where
    t: "template_options design_after_copy (get_unique_class_name class_Qubit) = Some t"
    and tr: "snapshot 3 (objects design_after_copy) t = Some tr"
    and fr: "\<forall>user_options r d2.
            (\<forall>a. user_options = Some a \<longrightarrow> shares_nothing (objects design_after_copy) a t)
            \<and> update_options 3 10 user_options design_after_copy = (r, d2) \<longrightarrow>
              template_options d2 = template_options design_after_copy
              \<and> snapshot 3 (objects d2) t = Some tr
              \<and> (\<forall>ws. admissible (objects d2) 10 t ws \<longrightarrow>
                    snapshot 3 (apply_writes (objects d2) ws) t = Some tr)"
    by auto
  have "get_unique_class_name class_Qubit = ''lib.Qubit''"
    by (simp add: get_unique_class_name_def class_Qubit_def)
  with t copy_template have t7: "t = 7" by simp
  have "snapshot 3 (objects design_after_copy) 7
      = Some (TDict [(''pad'', TDict [(''w'', TStr ''10um'')]), (''gap'', TStr ''5um'')])"
    unfolding design_after_copy_def by code_simp
  with tr t7 have trv: "tr = TDict [(''pad'', TDict [(''w'', TStr ''10um'')]), (''gap'', TStr ''5um'')]"
    by simp
  from fr[rule_format, of "Some 4" None design_after_update] overrides_share_nothing up t7
  have "\<forall>ws. admissible (objects design_after_update) 10 7 ws \<longrightarrow>
          snapshot 3 (apply_writes (objects design_after_update) ws) 7 = Some tr"
    by simp
  with later_writes_admissible trv
  have "snapshot 3 (apply_writes (objects design_after_update) later_writes) 7
       = Some (TDict [(''pad'', TDict [(''w'', TStr ''10um'')]), (''gap'', TStr ''5um'')])"
    by blast
  with wf_design_nested eq overrides_share_nothing up update_merged later_writes_admissible
    later_writes_options show ?thesis by blast
qed

lemma aliased_result:
  "fst (QComponent_init 3 class_Qubit plain_make design_user ''q2'' (Some 11) False None)
     = Inr aliased_component"
  by code_simp

lemma aliased_extra: "(''extra'', PRef 6) \<in> set (deref (objects design_aliased) 14)"
  unfolding design_aliased_def by code_simp

text \<open>C9 as stated fails when the overrides refer to an object of the stored template:
  the constructor stores the reference in the component's options, and a later write to
  that object of the options changes what the template denotes.\<close>

theorem aliased_override_reaches_template:
  "fst (QComponent_init 3 class_Qubit plain_make design_user ''q2'' (Some 11) False None)
     = Inr aliased_component
   \<and> template_options design_aliased ''lib.Qubit'' = Some 7
   \<and> 6 \<in> reach (objects design_aliased) (options aliased_component)
   \<and> snapshot 3 (objects design_aliased) 7
       = Some (TDict [(''pad'', TDict [(''w'', TStr ''10um'')]), (''gap'', TStr ''5um'')])
   \<and> snapshot 3 ((objects design_aliased)[6 := [(''w'', PStr ''99um'')]]) 7
       = Some (TDict [(''pad'', TDict [(''w'', TStr ''99um'')]), (''gap'', TStr ''5um'')])"
proof -
  have 1: "template_options design_aliased ''lib.Qubit'' = Some 7"
    unfolding design_aliased_def by code_simp
  have 2: "6 \<in> reach (objects design_aliased) (options aliased_component)"
    using reach_step[OF reach_root aliased_extra] by (simp add: aliased_component_def)
  have 3: "snapshot 3 (objects design_aliased) 7
       = Some (TDict [(''pad'', TDict [(''w'', TStr ''10um'')]), (''gap'', TStr ''5um'')])"
    unfolding design_aliased_def by code_simp
  have 4: "snapshot 3 ((objects design_aliased)[6 := [(''w'', PStr ''99um'')]]) 7
       = Some (TDict [(''pad'', TDict [(''w'', TStr ''99um'')]), (''gap'', TStr ''5um'')])"
    unfolding design_aliased_def by code_simp
  from aliased_result 1 2 3 4 show ?thesis by blast
qed

subsection \<open>Pins\<close>

text \<open>
  C3. \<open>make_pin\<close> on the points \<open>(0,0)\<close>, \<open>(2,0)\<close> without flip gives width 2, tangent
  \<open>(1,0)\<close>, middle \<open>(1,0)\<close> and a normal of length 1 orthogonal to the tangent; with flip the
  same pin with the normal negated. Every pin that \<open>make_pin\<close> returns has \<open>net_id\<close> 0.
\<close>

theorem make_pin_example:
  "(\<exists>p. make_pin ccw [(0, 0), (2, 0)] parent False chp = Inr p
       \<and> width p = 2 \<and> tangent p = (1, 0) \<and> middle p = (1, 0)
       \<and> vec_norm (normal p) = 1 \<and> vec_dot (normal p) (tangent p) = 0
       \<and> make_pin ccw [(0, 0), (2, 0)] parent True chp = Inr (p\<lparr>normal := vec_neg (normal p)\<rparr>))
   \<and> (\<forall>pts par flip c q. make_pin ccw pts par flip c = Inr q \<longrightarrow> net_id q = 0)"
proof -
  have s: "sqrt 4 = 2" using real_sqrt_abs[of 2] by simp
  show ?thesis
    by (auto simp: make_pin_def two_points_described_def vec_norm_def vec_dot_def vec_neg_def
        Let_def s split: list.splits)
qed

theorem make_pin_example_witness:
  "make_pin True [(0, 0), (0, 3)] ''q1'' True ''main''
     = Inr \<lparr>points = [(0, 0), (0, 3)], middle = (0, 3 / 2), normal = (1, 0), tangent = (0, 1),
            width = 3, chip = ''main'', parent_name = ''q1'', net_id = 0\<rparr>
   \<and> net_id \<lparr>points = [(0, 0), (0, 3)], middle = (0, 3 / 2), normal = (1, 0), tangent = (0, 1),
            width = 3, chip = ''main'', parent_name = ''q1'', net_id = 0\<rparr> = 0"
proof -
  have s: "sqrt 9 = 3" using real_sqrt_abs[of 3] by simp
  have m: "make_pin True [(0, 0), (0, 3)] ''q1'' True ''main''
     = Inr \<lparr>points = [(0, 0), (0, 3)], middle = (0, 3 / 2), normal = (1, 0), tangent = (0, 1),
            width = 3, chip = ''main'', parent_name = ''q1'', net_id = 0\<rparr>"
    by (simp add: make_pin_def two_points_described_def vec_norm_def vec_neg_def Let_def s)
  from make_pin_example[of True "''q1''" "''main''"] m show ?thesis by blast
qed

subsection \<open>Build lifecycle\<close>

text \<open>
  C4, as amended. \<open>do_make\<close> sets the status to \<open>failed\<close> and then invokes \<open>make()\<close> on
  that component (after the purge request, when the component was built before). If
  \<open>make()\<close> raises, \<open>do_make\<close> raises the same exception and leaves the component and the
  design exactly as \<open>make()\<close> left them, so that the status is \<open>failed\<close> unless \<open>make()\<close>
  itself assigned it; if \<open>make()\<close> returns, the status is \<open>good\<close>.
\<close>

theorem do_make_status:
  assumes "mk (self\<lparr>status := Failed\<rparr>)
              (d\<lparr>calls := calls d @ (if made self then [DeleteComponent (cid self)] else [])
                                  @ [MakeInvoked (cid self)]\<rparr>) = (r, self', d')"
  shows "(case r of
            Some e \<Rightarrow> do_make mk self d = (Some e, self', d')
          | None \<Rightarrow> do_make mk self d
                     = (None, (if made self then self' else self'\<lparr>made := True\<rparr>)\<lparr>status := Good\<rparr>, d'))
       \<and> (r \<noteq> None \<and> status self' = Failed \<longrightarrow> status (fst (snd (do_make mk self d))) = Failed)
       \<and> (r = None \<longrightarrow> status (fst (snd (do_make mk self d))) = Good)"
  using assms
  by (cases "made self")
     (auto simp: do_make_def invoke_make_def delete_component_def Let_def split: option.splits)

theorem do_make_status_witness:
  "do_make failing_make built_component design0
     = (Some (UserException ''bad geometry''), built_component\<lparr>status := Failed\<rparr>,
        design0\<lparr>calls := [DeleteComponent 1, MakeInvoked 1]\<rparr>)
   \<and> status (fst (snd (do_make failing_make built_component design0))) = Failed
   \<and> do_make plain_make fresh_component design0
     = (None, fresh_component\<lparr>status := Good, made := True\<rparr>,
        design0\<lparr>calls := [MakeInvoked 1]\<rparr>)
   \<and> status (fst (snd (do_make plain_make fresh_component design0))) = Good"
proof -
  have m: "failing_make (built_component\<lparr>status := Failed\<rparr>)
      (design0\<lparr>calls := calls design0
          @ (if made built_component then [DeleteComponent (cid built_component)] else [])
          @ [MakeInvoked (cid built_component)]\<rparr>)
      = (Some (UserException ''bad geometry''), built_component\<lparr>status := Failed\<rparr>,
         design0\<lparr>calls := [DeleteComponent 1, MakeInvoked 1]\<rparr>)"
    by (simp add: failing_make_def built_component_def design0_def)
  have s: "status (built_component\<lparr>status := Failed\<rparr>) = Failed" by simp
  have p: "plain_make (fresh_component\<lparr>status := Failed\<rparr>)
      (design0\<lparr>calls := calls design0
          @ (if made fresh_component then [DeleteComponent (cid fresh_component)] else [])
          @ [MakeInvoked (cid fresh_component)]\<rparr>)
      = (None, fresh_component\<lparr>status := Failed\<rparr>, design0\<lparr>calls := [MakeInvoked 1]\<rparr>)"
    by (simp add: plain_make_def fresh_component_def design0_def)
  have f: "\<not> made fresh_component" by (simp add: fresh_component_def)
  from do_make_status[where mk = failing_make and self = built_component and d = design0, OF m] s
  have 1: "do_make failing_make built_component design0
     = (Some (UserException ''bad geometry''), built_component\<lparr>status := Failed\<rparr>,
        design0\<lparr>calls := [DeleteComponent 1, MakeInvoked 1]\<rparr>)
   \<and> status (fst (snd (do_make failing_make built_component design0))) = Failed"
    by simp
  from do_make_status[where mk = plain_make and self = fresh_component and d = design0, OF p] f
  have 2: "do_make plain_make fresh_component design0
     = (None, fresh_component\<lparr>status := Good, made := True\<rparr>,
        design0\<lparr>calls := [MakeInvoked 1]\<rparr>)
   \<and> status (fst (snd (do_make plain_make fresh_component design0))) = Good"
    by simp
  from 1 2 show ?thesis by blast
qed

text \<open>C4 as stated fails for a \<open>make()\<close> that assigns the status and then raises: the
  exception propagates and the status is the one \<open>make()\<close> assigned.\<close>

theorem do_make_status_overwritten:
  "fst (do_make sneaky_make built_component design0) = Some (UserException ''bad geometry'')
   \<and> status (fst (snd (do_make sneaky_make built_component design0))) = Good"
  by (simp add: do_make_def invoke_make_def delete_component_def sneaky_make_def
      built_component_def Let_def)

text \<open>
  C5, as amended. A constructor call that returns normally leaves the status \<open>good\<close> when
  it was asked to build (\<open>make=True\<close>, the default), and \<open>not built\<close> when it was not
  (\<open>make=False\<close>).
\<close>

theorem init_status:
  "QComponent_init depth cls mk design nm user_options make_now component_template = (Inr c, d')
     \<Longrightarrow> status c = (if make_now then Good else NotBuilt)"
  by (auto simp: QComponent_init_def do_make_def add_to_design_def get_new_qcomponent_id_def
      alloc_def Let_def split: prod.splits option.splits sum.splits if_splits)

lemma init_plain:
  "fst (QComponent_init 3 class_A plain_make design0 ''q1'' None True None)
     = Inr built_component"
  by code_simp

theorem init_status_witness:
  "fst (QComponent_init 3 class_A plain_make design0 ''q1'' None True None)
     = Inr built_component
   \<and> status built_component = (if True then Good else NotBuilt)"
proof -
  have "QComponent_init 3 class_A plain_make design0 ''q1'' None True None
     = (Inr built_component,
        snd (QComponent_init 3 class_A plain_make design0 ''q1'' None True None))"
    using init_plain by (metis prod.collapse)
  from init_status[OF this] init_plain show ?thesis by simp
qed

text \<open>C5 as stated fails for a component constructed with \<open>make=False\<close>: the constructor
  returns normally and the status is \<open>not built\<close>.\<close>

theorem init_not_built:
  "map_sum id status
     (fst (QComponent_init 3 class_A plain_make design0 ''q1'' None False None)) = Inr NotBuilt"
  by code_simp

text \<open>
  C6. The design after \<open>rebuild\<close>, its history of calls included, is the design \<open>make()\<close>
  returned when invoked on the history extended by exactly one \<open>delete_component\<close> request
  for this component's id if the component was built before, by no such request on a
  first build, and then by the invocation of \<open>make()\<close>. \<open>rebuild\<close> sends the geometry table
  service nothing else, before or after.
\<close>

theorem rebuild_purges:
  "snd (snd (rebuild mk self d))
     = snd (snd (mk (self\<lparr>status := Failed\<rparr>)
                  (d\<lparr>calls := calls d
                       @ (if made self then [DeleteComponent (cid self)] else [])
                       @ [MakeInvoked (cid self)]\<rparr>)))"
  by (cases "made self")
     (auto simp: rebuild_def do_make_def invoke_make_def delete_component_def Let_def
        split: option.splits prod.splits)

theorem rebuild_purges_witness:
  "calls (snd (snd (rebuild plain_make built_component design0)))
     = [DeleteComponent 1, MakeInvoked 1]
   \<and> calls (snd (snd (rebuild plain_make fresh_component design0))) = [MakeInvoked 1]"
  using rebuild_purges[of plain_make built_component design0]
    rebuild_purges[of plain_make fresh_component design0]
  by (simp add: plain_make_def built_component_def fresh_component_def design0_def)

subsection \<open>Reading geometry\<close>

text \<open>
  C7. For an element kind the geometry table service does not accept, \<open>elements_dict\<close> and
  \<open>elements_table\<close> return \<open>None\<close> without raising, whatever the retrieval operations would
  do, and the only request the service receives is the check of the kind.
\<close>

theorem unknown_kind_returns_None:
  assumes "\<not> fst (check_element_type element_type d)"
  shows "elements_dict get_dict self d element_type
           = (Inr None, d\<lparr>calls := calls d @ [CheckElementType element_type]\<rparr>)
       \<and> elements_table get_table self d element_type
           = (Inr None, d\<lparr>calls := calls d @ [CheckElementType element_type]\<rparr>)"
  using assms by (simp add: elements_dict_def elements_table_def check_element_type_def)

theorem unknown_kind_returns_None_witness:
  "\<not> fst (check_element_type ''bogus'' design0)
   \<and> elements_dict (\<lambda>i k. Inl KeyError :: error + nat) built_component design0 ''bogus''
       = (Inr None, design0\<lparr>calls := calls design0 @ [CheckElementType ''bogus'']\<rparr>)"
proof -
  have h: "\<not> fst (check_element_type ''bogus'' design0)"
    by (simp add: check_element_type_def design0_def)
  from unknown_kind_returns_None[OF h, of "\<lambda>i k. Inl KeyError :: error + nat" built_component
      "\<lambda>i k. Inl KeyError :: error + nat"] h
  show ?thesis by blast
qed

subsection \<open>Construction\<close>

text \<open>
  C8. When the \<open>design\<close> argument is not a valid design, the constructor fails with the
  assertion error of its first statement and the design is unchanged: nothing is
  registered.
\<close>

theorem invalid_design_rejected:
  "\<not> is_design design \<Longrightarrow>
   QComponent_init depth cls mk design nm user_options make_now component_template
     = (Inl AssertionError, design)"
  by (simp add: QComponent_init_def)

theorem invalid_design_rejected_witness:
  "\<not> is_design not_a_design
   \<and> QComponent_init 3 class_A plain_make not_a_design ''q1'' None True None
       = (Inl AssertionError, not_a_design)"
proof -
  have h: "\<not> is_design not_a_design"
    by (simp add: is_design_def not_a_design_def design0_def)
  from invalid_design_rejected[OF h] h show ?thesis by blast
qed

end
